theory Spec2Isabelle
  imports Complex_Main "HOL-Library.AList"
begin

section \<open>Errors raised by the program\<close>

text \<open>
  Every exception the modelled functions of \<^verbatim>\<open>generate_input.py\<close> can raise is a
  constructor; a fallible function returns \<open>py_error + 'a\<close> with \<open>Inl\<close> the exception.
  \<^item> \<open>InvalidSegment\<close>: the \<^verbatim>\<open>TypeError("Invalid CNV segment ...")\<close> of \<^verbatim>\<open>SampleCNVs.add\<close>;
  \<^item> \<open>InvalidPloidy\<close>: the \<^verbatim>\<open>TypeError("Ploidy of sample ... below 1!")\<close> of \<^verbatim>\<open>adjust_ploidy\<close>;
  \<^item> \<open>InvalidCNState\<close>: the \<^verbatim>\<open>NotImplementedError\<close> of \<^verbatim>\<open>get_overlap_genes\<close>;
  \<^item> \<open>NoneComparison\<close>: the \<^verbatim>\<open>TypeError\<close> Python raises when an \<^verbatim>\<open>int\<close> is ordered
    against \<^verbatim>\<open>None\<close> (an arm coordinate that was never set);
  \<^item> \<open>IndexError\<close>, \<open>KeyError\<close>, \<open>ZeroDivisionError\<close>, \<open>StopIteration\<close>: the built-in ones;
  \<^item> \<open>DuplicateArmAssignment\<close>, \<open>UnknownArm\<close>: the \<^verbatim>\<open>AttributeError\<close>s of \<^verbatim>\<open>Chromosome.add\<close>.
\<close>

datatype py_error =
    InvalidSegment
  | InvalidPloidy
  | InvalidCNState
  | NoneComparison
  | IndexError
  | KeyError
  | ZeroDivisionError
  | StopIteration
  | DuplicateArmAssignment
  | UnknownArm

section \<open>Library routines the program calls\<close>

subsection \<open>\<^verbatim>\<open>bisect.bisect_right\<close> and \<^verbatim>\<open>bisect.bisect_left\<close>\<close>

text \<open>
  The binary searches of Python's \<^verbatim>\<open>bisect\<close> module, with \<^verbatim>\<open>lo = 0\<close> and
  \<^verbatim>\<open>hi = len(a)\<close>:
  \<^verbatim>\<open>
    while lo < hi:
        mid = (lo + hi) // 2
        if x < a[mid]: hi = mid      # bisect_right
        else: lo = mid + 1
    return lo
  \<close>
  and, for \<^verbatim>\<open>bisect_left\<close>, the test \<^verbatim>\<open>if a[mid] < x: lo = mid + 1 else: hi = mid\<close>.
  They are modelled on every list, sorted or not.
\<close>

function bisect_right_loop :: "int list \<Rightarrow> int \<Rightarrow> nat \<Rightarrow> nat \<Rightarrow> nat" where
  "bisect_right_loop a x lo hi =
     (if lo < hi then
        (if x < a ! ((lo + hi) div 2) then bisect_right_loop a x lo ((lo + hi) div 2)
         else bisect_right_loop a x ((lo + hi) div 2 + 1) hi)
      else lo)"
  by pat_completeness auto
termination
  by (relation "measure (\<lambda>(a, x, lo, hi). hi - lo)") auto

function bisect_left_loop :: "int list \<Rightarrow> int \<Rightarrow> nat \<Rightarrow> nat \<Rightarrow> nat" where
  "bisect_left_loop a x lo hi =
     (if lo < hi then
        (if a ! ((lo + hi) div 2) < x then bisect_left_loop a x ((lo + hi) div 2 + 1) hi
         else bisect_left_loop a x lo ((lo + hi) div 2))
      else lo)"
  by pat_completeness auto
termination
  by (relation "measure (\<lambda>(a, x, lo, hi). hi - lo)") auto

definition bisect_right :: "int list \<Rightarrow> int \<Rightarrow> nat" where
  "bisect_right a x = bisect_right_loop a x 0 (length a)"

definition bisect_left :: "int list \<Rightarrow> int \<Rightarrow> nat" where
  "bisect_left a x = bisect_left_loop a x 0 (length a)"

subsection \<open>\<^verbatim>\<open>list.pop(i)\<close>, \<^verbatim>\<open>list.insert(i, x)\<close>, \<^verbatim>\<open>str.replace\<close>, \<^verbatim>\<open>str.startswith\<close>\<close>

text \<open>
  \<open>pop_at\<close> is used only below an index that was just read, so it never raises;
  \<open>insert_at\<close> beyond the end appends, as Python's \<^verbatim>\<open>insert\<close> does.
\<close>

definition pop_at :: "nat \<Rightarrow> 'a list \<Rightarrow> 'a list" where
  "pop_at i xs = take i xs @ drop (Suc i) xs"

definition insert_at :: "nat \<Rightarrow> 'a \<Rightarrow> 'a list \<Rightarrow> 'a list" where
  "insert_at i x xs = take i xs @ x # drop i xs"

text \<open>\<^verbatim>\<open>s.replace("chr", "")\<close>: every occurrence, left to right, without overlap.\<close>

fun remove_chr :: "string \<Rightarrow> string" where
  "remove_chr (a # b # c # rest) =
     (if [a, b, c] = ''chr'' then remove_chr rest else a # remove_chr (b # c # rest))"
| "remove_chr s = s"

definition startswith_chr :: "string \<Rightarrow> bool" where
  "startswith_chr s = (take 3 s = ''chr'')"

section \<open>The interval consolidator: \<^verbatim>\<open>SampleCNVs.merge_overlapping_cnvs\<close>\<close>

text \<open>
  The three parallel lists \<^verbatim>\<open>existStarts\<close>, \<^verbatim>\<open>existEnds\<close>, \<^verbatim>\<open>existCNs\<close> of one chromosome.
\<close>

type_synonym cnv_lists = "int list \<times> int list \<times> int list"

text \<open>
  Which of the two nested helpers the \<^verbatim>\<open>else\<close> branch (different CN states) calls:
  \<^verbatim>\<open>reduce_new_event\<close> truncates the inserted segment, \<^verbatim>\<open>reduce_old_event\<close> the existing one.
\<close>

datatype resolution = ReduceNew | ReduceOld

definition resolve :: "int \<Rightarrow> int \<Rightarrow> int \<Rightarrow> int \<Rightarrow> int \<Rightarrow> int \<Rightarrow> resolution" where
  "resolve newStart newEnd newCN oldStart oldEnd oldCN =
     (if newCN \<le> 2 \<and> oldCN \<le> 2 then
        (if oldCN < newCN then ReduceNew else ReduceOld)
      else if newCN \<ge> 2 \<and> oldCN \<ge> 2 then
        (if oldCN > newCN then ReduceNew else ReduceOld)
      else
        (if oldEnd - oldStart < newEnd - newStart then ReduceNew else ReduceOld))"

text \<open>
  The list surgery of \<^verbatim>\<open>reduce_old_event\<close> before its recursive call: the existing
  event at \<^verbatim>\<open>start_bisect\<close> is popped, then its right remainder and its left remainder
  are inserted at the same index when they are non-empty.
\<close>

definition reduce_old_lists ::
  "nat \<Rightarrow> cnv_lists \<Rightarrow> int \<Rightarrow> int \<Rightarrow> int \<Rightarrow> int \<Rightarrow> int \<Rightarrow> cnv_lists" where
  "reduce_old_lists start_bisect ex newStart newEnd oldStart oldEnd oldCN =
     (case ex of (existStarts, existEnds, existCNs) \<Rightarrow>
        let popped = (pop_at start_bisect existStarts, pop_at start_bisect existEnds,
                      pop_at start_bisect existCNs);
            right = (case popped of (s, e, c) \<Rightarrow>
                       if newEnd < oldEnd
                       then (insert_at start_bisect newEnd s, insert_at start_bisect oldEnd e,
                             insert_at start_bisect oldCN c)
                       else popped)
        in (case right of (s, e, c) \<Rightarrow>
              if oldStart < newStart
              then (insert_at start_bisect oldStart s, insert_at start_bisect newStart e,
                    insert_at start_bisect oldCN c)
              else right))"

text \<open>
  The method itself. It recurses on lists it has just edited, and nothing in the code
  bounds the recursion on lists that are not sorted, so it is a partial function:
  \<open>None\<close> is "does not return". The two calls of \<^verbatim>\<open>reduce_new_event\<close> run in sequence,
  the second on the lists the first returned.
\<close>

partial_function (option) merge_overlapping_cnvs ::
  "cnv_lists \<Rightarrow> int \<Rightarrow> int \<Rightarrow> int \<Rightarrow> (py_error + cnv_lists) option" where
  "merge_overlapping_cnvs ex newStart newEnd newCN =
     (case ex of (existStarts, existEnds, existCNs) \<Rightarrow>
        let start_bisect = bisect_right existEnds newStart;
            end_bisect = bisect_left existStarts newEnd
        in
        if start_bisect = end_bisect then
          Some (Inr (insert_at start_bisect newStart existStarts,
                     insert_at start_bisect newEnd existEnds,
                     insert_at start_bisect newCN existCNs))
        else if \<not> (start_bisect < length existStarts \<and> start_bisect < length existEnds
                   \<and> start_bisect < length existCNs) then
          Some (Inl IndexError)
        else
          let oldStart = existStarts ! start_bisect;
              oldEnd = existEnds ! start_bisect;
              oldCN = existCNs ! start_bisect
          in
          if oldCN = newCN then
            merge_overlapping_cnvs
              (pop_at start_bisect existStarts, pop_at start_bisect existEnds,
               pop_at start_bisect existCNs)
              (if oldStart < newStart then oldStart else newStart)
              (if oldEnd > newEnd then oldEnd else newEnd)
              newCN
          else
            (case resolve newStart newEnd newCN oldStart oldEnd oldCN of
               ReduceNew \<Rightarrow>
                 Option.bind
                   (if newStart < oldStart
                    then merge_overlapping_cnvs ex newStart oldStart newCN
                    else Some (Inr ex))
                   (\<lambda>r. case r of
                      Inl err \<Rightarrow> Some (Inl err)
                    | Inr ex1 \<Rightarrow>
                        if oldEnd < newEnd
                        then merge_overlapping_cnvs ex1 oldEnd newEnd newCN
                        else Some (Inr ex1))
             | ReduceOld \<Rightarrow>
                 merge_overlapping_cnvs
                   (reduce_old_lists start_bisect ex newStart newEnd oldStart oldEnd oldCN)
                   newStart newEnd newCN))"

declare merge_overlapping_cnvs.simps [code]

section \<open>The sample profile: \<^verbatim>\<open>SampleCNVs\<close> and \<^verbatim>\<open>SampleCNVs.add\<close>\<close>

text \<open>
  The dictionaries of the class are association lists in insertion order, read with
  \<open>map_of\<close> and written with \<open>AList.update\<close>, which overwrites in place and appends a
  new key, as a Python \<^verbatim>\<open>dict\<close> does.
\<close>

record sample_cnvs =
  starts :: "(string \<times> int list) list"
  ends :: "(string \<times> int list) list"
  cn_states :: "(string \<times> int list) list"
  len_seg :: "(string \<times> nat) list"
  is_chr_prefixed :: "bool option"
  ploidy :: "int option"

definition SampleCNVs_init :: sample_cnvs where
  "SampleCNVs_init =
     \<lparr>starts = [], ends = [], cn_states = [], len_seg = [],
      is_chr_prefixed = None, ploidy = None\<rparr>"

definition add ::
  "sample_cnvs \<Rightarrow> string \<Rightarrow> int \<Rightarrow> int \<Rightarrow> int \<Rightarrow> (py_error + sample_cnvs) option" where
  "add self chrom0 start end cn =
     (let chrom = remove_chr chrom0 in
      if end \<le> start then
        (if start = end then Some (Inr self) else Some (Inl InvalidSegment))
      else if map_of (len_seg self) chrom = None then
        Some (Inr (self\<lparr>starts := AList.update chrom [start] (starts self),
                         ends := AList.update chrom [end] (ends self),
                         cn_states := AList.update chrom [cn] (cn_states self),
                         len_seg := AList.update chrom 1 (len_seg self),
                         is_chr_prefixed :=
                           (if is_chr_prefixed self = None then Some (startswith_chr chrom)
                            else is_chr_prefixed self)\<rparr>))
      else
        (case (map_of (starts self) chrom, map_of (ends self) chrom,
               map_of (cn_states self) chrom) of
           (Some s, Some e, Some c) \<Rightarrow>
             (case merge_overlapping_cnvs (s, e, c) start end cn of
                None \<Rightarrow> None
              | Some (Inl err) \<Rightarrow> Some (Inl err)
              | Some (Inr (s', e', c')) \<Rightarrow>
                  Some (Inr (self\<lparr>starts := AList.update chrom s' (starts self),
                                   ends := AList.update chrom e' (ends self),
                                   cn_states := AList.update chrom c' (cn_states self),
                                   len_seg := AList.update chrom (length (cn_states self))
                                                (len_seg self)\<rparr>)))
         | _ \<Rightarrow> Some (Inl KeyError)))"

text \<open>A stream of segments for one sample, as the driver loop feeds them to \<^verbatim>\<open>add\<close>.\<close>

fun add_all ::
  "sample_cnvs \<Rightarrow> (string \<times> int \<times> int \<times> int) list \<Rightarrow> (py_error + sample_cnvs) option" where
  "add_all self [] = Some (Inr self)"
| "add_all self ((chrom, start, end, cn) # rest) =
     (case add self chrom start end cn of
        None \<Rightarrow> None
      | Some (Inl err) \<Rightarrow> Some (Inl err)
      | Some (Inr self') \<Rightarrow> add_all self' rest)"

section \<open>Chromosome arms: \<^verbatim>\<open>Chromosome\<close>\<close>

text \<open>
  An arm coordinate is \<^verbatim>\<open>None\<close> until \<^verbatim>\<open>Chromosome.add\<close> sets it. The two lengths start
  as \<^verbatim>\<open>0.0\<close> and are then only ever assigned integers (\<^verbatim>\<open>end - start\<close>, or the
  placeholder \<^verbatim>\<open>1\<close>), so they are integers here, \<open>0\<close> at first.
\<close>

record chromosome =
  chrom :: string
  p_start :: "int option"
  p_end :: "int option"
  q_start :: "int option"
  q_end :: "int option"
  q_length :: int
  p_length :: int

definition Chromosome_init :: "string \<Rightarrow> chromosome" where
  "Chromosome_init name =
     \<lparr>chrom = name, p_start = None, p_end = None, q_start = None, q_end = None,
      q_length = 0, p_length = 0\<rparr>"

definition Chromosome_add :: "chromosome \<Rightarrow> int \<Rightarrow> int \<Rightarrow> string \<Rightarrow> py_error + chromosome" where
  "Chromosome_add self start end arm =
     (if arm = ''p'' then
        (if p_start self \<noteq> None \<or> p_end self \<noteq> None then Inl DuplicateArmAssignment
         else (case q_start self of
                 Some qs \<Rightarrow>
                   if end > qs then Inl DuplicateArmAssignment
                   else Inr (self\<lparr>p_start := Some start, p_end := Some end,
                                   p_length := end - start\<rparr>)
               | None \<Rightarrow>
                   Inr (self\<lparr>p_start := Some start, p_end := Some end,
                              p_length := end - start\<rparr>)))
      else if arm = ''q'' then
        (if q_start self \<noteq> None \<or> q_end self \<noteq> None then Inl DuplicateArmAssignment
         else (case p_end self of
                 Some pe \<Rightarrow>
                   if start < pe then Inl DuplicateArmAssignment
                   else Inr (self\<lparr>q_start := Some start, q_end := Some end,
                                   q_length := end - start\<rparr>)
               | None \<Rightarrow>
                   Inr (self\<lparr>q_start := Some start, q_end := Some end,
                              q_length := end - start\<rparr>)))
      else Inl UnknownArm)"

text \<open>
  The block both \<^verbatim>\<open>overlap_chrom\<close> and \<^verbatim>\<open>adjust_ploidy\<close> run on one segment: the range
  test, then the overlap with the p arm and the overlap with the q arm, each present
  only when its \<^verbatim>\<open>if\<close> is taken. Ordering an integer against an unset coordinate raises.
\<close>

definition arm_overlaps ::
  "chromosome \<Rightarrow> int \<Rightarrow> int \<Rightarrow> py_error + (int option \<times> int option)" where
  "arm_overlaps c start end =
     (case p_start c of
        None \<Rightarrow> Inl NoneComparison
      | Some ps \<Rightarrow>
          if end < ps then Inr (None, None)
          else (case q_end c of
             None \<Rightarrow> Inl NoneComparison
           | Some qe \<Rightarrow>
               if start > qe then Inr (None, None)
               else (case p_end c of
                  None \<Rightarrow> Inl NoneComparison
                | Some pe \<Rightarrow>
                    (case q_start c of
                       None \<Rightarrow> Inl NoneComparison
                     | Some qs \<Rightarrow>
                         Inr (if start < pe
                              then Some ((if end < pe then end else pe)
                                         - (if start > ps then start else ps))
                              else None,
                              if end > qs
                              then Some ((if end < qe then end else qe)
                                         - (if start > qs then start else qs))
                              else None)))))"

text \<open>The "chr" prefix handling that precedes every lookup in the profile.\<close>

definition normalize_name :: "bool option \<Rightarrow> string \<Rightarrow> string" where
  "normalize_name prefixed name =
     (if prefixed = Some True \<and> \<not> startswith_chr name then ''chr'' @ name
      else if prefixed \<noteq> Some True \<and> startswith_chr name then remove_chr name
      else name)"

definition bind_err :: "py_error + 'a \<Rightarrow> ('a \<Rightarrow> py_error + 'b) \<Rightarrow> py_error + 'b" where
  "bind_err m f = (case m of Inl err \<Rightarrow> Inl err | Inr x \<Rightarrow> f x)"

section \<open>The ploidy normalizer: \<^verbatim>\<open>SampleCNVs.adjust_ploidy\<close>\<close>

text \<open>The placeholder window written into a chromosome whose arm was never set.\<close>

definition set_placeholders :: "chromosome \<Rightarrow> chromosome" where
  "set_placeholders c =
     (let c1 = (if p_start c = None
                then c\<lparr>p_start := Some (- 100000), p_end := Some (- 100000), p_length := 1\<rparr>
                else c)
      in if q_start c1 = None
         then c1\<lparr>q_start := Some (- 100000), q_end := Some (- 100000), q_length := 1\<rparr>
         else c1)"

text \<open>\<^verbatim>\<open>ploidy_cov\<close>: bases covered per CN state, a dictionary in insertion order.\<close>

definition cov_add :: "int \<Rightarrow> int option \<Rightarrow> (int \<times> int) list \<Rightarrow> (int \<times> int) list" where
  "cov_add cn olap cov =
     (case olap of
        None \<Rightarrow> cov
      | Some n \<Rightarrow>
          (case map_of cov cn of
             None \<Rightarrow> AList.update cn (0 + n) cov
           | Some bases \<Rightarrow> AList.update cn (bases + n) cov))"

fun ploidy_seg_loop ::
  "chromosome \<Rightarrow> (int \<times> int \<times> int) list \<Rightarrow> (int \<times> int) list \<Rightarrow> py_error + (int \<times> int) list" where
  "ploidy_seg_loop c [] cov = Inr cov"
| "ploidy_seg_loop c ((start, end, cn) # rest) cov =
     (case arm_overlaps c start end of
        Inl err \<Rightarrow> Inl err
      | Inr (p_olap, q_olap) \<Rightarrow>
          ploidy_seg_loop c rest (cov_add cn q_olap (cov_add cn p_olap cov)))"

text \<open>
  The loop over \<^verbatim>\<open>arm_coords.values()\<close>. It writes the placeholders into the
  \<^verbatim>\<open>Chromosome\<close> objects of the table itself, so the table is part of the result, also
  when an exception leaves the loop.
\<close>

fun ploidy_chrom_loop ::
  "sample_cnvs \<Rightarrow> (string \<times> chromosome) list \<Rightarrow> (int \<times> int) list \<Rightarrow> int
   \<Rightarrow> (py_error + ((int \<times> int) list \<times> int)) \<times> (string \<times> chromosome) list" where
  "ploidy_chrom_loop self [] cov genome_size = (Inr (cov, genome_size), [])"
| "ploidy_chrom_loop self ((key, c0) # rest) cov genome_size =
     (let c = set_placeholders c0;
          genome_size1 = genome_size + p_length c + q_length c;
          chrom_name = normalize_name (is_chr_prefixed self) (chrom c)
      in case map_of (starts self) chrom_name of
           None \<Rightarrow>
             (case ploidy_chrom_loop self rest cov genome_size1 of
                (res, rest') \<Rightarrow> (res, (key, c) # rest'))
         | Some chrom_starts \<Rightarrow>
             (case (map_of (ends self) chrom_name, map_of (cn_states self) chrom_name) of
                (Some chrom_ends, Some chrom_cn) \<Rightarrow>
                  (case ploidy_seg_loop c (zip chrom_starts (zip chrom_ends chrom_cn)) cov of
                     Inl err \<Rightarrow> (Inl err, (key, c) # rest)
                   | Inr cov1 \<Rightarrow>
                       (case ploidy_chrom_loop self rest cov1 genome_size1 of
                          (res, rest') \<Rightarrow> (res, (key, c) # rest')))
              | _ \<Rightarrow> (Inl KeyError, (key, c) # rest)))"

text \<open>
  \<^verbatim>\<open>round(x / genome_size)\<close>: Python divides the two integers into a float and rounds
  the float half to even. The quotient is taken exactly here, which is what the float
  computation gives as long as \<open>\<bar>x\<bar>\<close> stays below \<open>2^52\<close> (a double then separates the
  quotient from every half-integer it is not equal to); beyond that the float may
  differ in the last place. The caller handles \<open>genome_size = 0\<close>.
\<close>

definition py_round_div :: "int \<Rightarrow> int \<Rightarrow> int" where
  "py_round_div x g =
     (let q = x div g; r = x mod g in
      if 2 * \<bar>r\<bar> < \<bar>g\<bar> then q
      else if 2 * \<bar>r\<bar> > \<bar>g\<bar> then q + 1
      else if even q then q else q + 1)"

text \<open>
  The method returns \<^verbatim>\<open>None\<close> and works by side effect, so the model returns what it
  raised (if anything), the profile and the arm table as the call leaves them.
\<close>

definition adjust_ploidy ::
  "sample_cnvs \<Rightarrow> (string \<times> chromosome) list \<Rightarrow> bool
   \<Rightarrow> (py_error + unit) \<times> sample_cnvs \<times> (string \<times> chromosome) list" where
  "adjust_ploidy self arm_coords redo =
     (if ploidy self \<noteq> None \<and> \<not> redo then (Inr (), self, arm_coords)
      else
        (case ploidy_chrom_loop self arm_coords [] 0 of
           (Inl err, arm_coords') \<Rightarrow> (Inl err, self, arm_coords')
         | (Inr (ploidy_cov, genome_size), arm_coords') \<Rightarrow>
             let x = foldl (\<lambda>x (cn, bases). x + cn * bases) 0 ploidy_cov in
             if genome_size = 0 then (Inl ZeroDivisionError, self, arm_coords')
             else
               let av_ploidy = py_round_div x genome_size in
               if av_ploidy < 1 then (Inl InvalidPloidy, self, arm_coords')
               else
                 (Inr (),
                  (if av_ploidy \<noteq> 2
                   then self\<lparr>cn_states :=
                          map (\<lambda>(name, cn). (name, map (\<lambda>y. y - (av_ploidy - 2)) cn))
                            (cn_states self)\<rparr>
                   else self)\<lparr>ploidy := Some av_ploidy\<rparr>,
                  arm_coords')))"

section \<open>The arm and chromosome classifier: \<^verbatim>\<open>SampleCNVs.overlap_chrom\<close>\<close>

text \<open>
  Each of \<^verbatim>\<open>homdel_sum\<close>, \<^verbatim>\<open>del_sum\<close>, \<^verbatim>\<open>gain_sum\<close>, \<^verbatim>\<open>amp_sum\<close> is a dictionary with
  the fixed keys \<^verbatim>\<open>"p"\<close>, \<^verbatim>\<open>"q"\<close>, \<^verbatim>\<open>"Chrom"\<close>.
\<close>

record arm_sums =
  sum_p :: int
  sum_q :: int
  sum_Chrom :: int

record event_sums =
  homdel_sum :: arm_sums
  del_sum :: arm_sums
  gain_sum :: arm_sums
  amp_sum :: arm_sums

definition zero_arm_sums :: arm_sums where
  "zero_arm_sums = \<lparr>sum_p = 0, sum_q = 0, sum_Chrom = 0\<rparr>"

definition zero_sums :: event_sums where
  "zero_sums = \<lparr>homdel_sum = zero_arm_sums, del_sum = zero_arm_sums,
                 gain_sum = zero_arm_sums, amp_sum = zero_arm_sums\<rparr>"

datatype arm = P_arm | Q_arm

definition bump :: "arm \<Rightarrow> int \<Rightarrow> arm_sums \<Rightarrow> arm_sums" where
  "bump a n s =
     (case a of
        P_arm \<Rightarrow> s\<lparr>sum_p := sum_p s + n, sum_Chrom := sum_Chrom s + n\<rparr>
      | Q_arm \<Rightarrow> s\<lparr>sum_q := sum_q s + n, sum_Chrom := sum_Chrom s + n\<rparr>)"

definition tally :: "arm \<Rightarrow> int \<Rightarrow> int option \<Rightarrow> event_sums \<Rightarrow> event_sums" where
  "tally a cn olap totals =
     (case olap of
        None \<Rightarrow> totals
      | Some n \<Rightarrow>
          if cn < 2 then
            (let totals1 = totals\<lparr>del_sum := bump a n (del_sum totals)\<rparr>
             in if cn < 1 then totals1\<lparr>homdel_sum := bump a n (homdel_sum totals1)\<rparr> else totals1)
          else if cn > 2 then
            (let totals1 = totals\<lparr>gain_sum := bump a n (gain_sum totals)\<rparr>
             in if cn > 3 then totals1\<lparr>amp_sum := bump a n (amp_sum totals1)\<rparr> else totals1)
          else totals)"

fun overlap_loop ::
  "chromosome \<Rightarrow> (int \<times> int \<times> int) list \<Rightarrow> event_sums \<Rightarrow> py_error + event_sums" where
  "overlap_loop c [] totals = Inr totals"
| "overlap_loop c ((start, end, cn) # rest) totals =
     (if cn = 2 then overlap_loop c rest totals
      else
        (case arm_overlaps c start end of
           Inl err \<Rightarrow> Inl err
         | Inr (p_olap, q_olap) \<Rightarrow>
             overlap_loop c rest (tally Q_arm cn q_olap (tally P_arm cn p_olap totals))))"

datatype event = AMP | GAIN | HOMDEL | HETLOSS

text \<open>
  \<^verbatim>\<open>amount / length > threshold\<close>, a true division. The threshold is a float in the source
  (\<^verbatim>\<open>0.8\<close> by default) and a rational here.
\<close>

definition frac_gt :: "int \<Rightarrow> int \<Rightarrow> rat \<Rightarrow> py_error + bool" where
  "frac_gt amount len threshold =
     (if len = 0 then Inl ZeroDivisionError
      else Inr (of_int amount / of_int len > threshold))"

text \<open>
  The source classifies the gain family (\<^verbatim>\<open>amp_sum\<close>, \<^verbatim>\<open>gain_sum\<close>) and then the loss
  family (\<^verbatim>\<open>homdel_sum\<close>, \<^verbatim>\<open>del_sum\<close>) with the same statements, on the one dictionary
  \<^verbatim>\<open>events\<close>. \<open>classify_family\<close> is that block, with the higher tier \<open>hi\<close>, the lower
  tier \<open>lo\<close> and their two labels as parameters. A test \<^verbatim>\<open>key not in events and ...\<close>
  divides only when the key is absent.
\<close>

definition classify_family ::
  "string \<Rightarrow> chromosome \<Rightarrow> rat \<Rightarrow> arm_sums \<Rightarrow> arm_sums \<Rightarrow> event \<Rightarrow> event
   \<Rightarrow> (string \<times> event) list \<Rightarrow> py_error + (string \<times> event) list" where
  "classify_family chrom_name c threshold hi lo hi_label lo_label events =
     bind_err (frac_gt (sum_Chrom hi) (p_length c + q_length c) threshold) (\<lambda>whole_hi.
       if whole_hi then Inr (AList.update (chrom_name @ ''Chrom'') hi_label events)
       else
         bind_err (frac_gt (sum_p hi) (p_length c) threshold) (\<lambda>p_hi.
         bind_err
           (if p_hi then Inr (AList.update (chrom_name @ ''p'') hi_label events)
            else bind_err (frac_gt (sum_q hi) (q_length c) threshold) (\<lambda>q_hi.
                   Inr (if q_hi then AList.update (chrom_name @ ''q'') hi_label events
                        else events)))
           (\<lambda>events1.
         bind_err
           (if map_of events1 (chrom_name @ ''Chrom'') = None
            then frac_gt (sum_Chrom lo) (p_length c + q_length c) threshold
            else Inr False)
           (\<lambda>whole_lo.
         if whole_lo then Inr (AList.update (chrom_name @ ''Chrom'') lo_label events1)
         else
           bind_err
             (if map_of events1 (chrom_name @ ''p'') = None
              then frac_gt (sum_p lo) (p_length c) threshold
              else Inr False)
             (\<lambda>p_lo.
           let events2 = (if p_lo then AList.update (chrom_name @ ''p'') lo_label events1
                          else events1)
           in
           bind_err
             (if map_of events2 (chrom_name @ ''q'') = None
              then frac_gt (sum_q lo) (q_length c) threshold
              else Inr False)
             (\<lambda>q_lo.
           Inr (if q_lo then AList.update (chrom_name @ ''q'') lo_label events2
                else events2)))))))"

definition classify_events ::
  "string \<Rightarrow> chromosome \<Rightarrow> rat \<Rightarrow> event_sums \<Rightarrow> py_error + (string \<times> event) list" where
  "classify_events chrom_name c threshold totals =
     bind_err (classify_family chrom_name c threshold (amp_sum totals) (gain_sum totals)
                 AMP GAIN [])
       (\<lambda>events.
          classify_family chrom_name c threshold (homdel_sum totals) (del_sum totals)
            HOMDEL HETLOSS events)"

definition overlap_chrom ::
  "sample_cnvs \<Rightarrow> chromosome \<Rightarrow> rat \<Rightarrow> py_error + (string \<times> event) list" where
  "overlap_chrom self c threshold =
     (let chrom_name = normalize_name (is_chr_prefixed self) (chrom c) in
      case map_of (starts self) chrom_name of
        None \<Rightarrow> Inr []
      | Some chrom_starts \<Rightarrow>
          (case (map_of (ends self) chrom_name, map_of (cn_states self) chrom_name) of
             (Some chrom_ends, Some chrom_cn) \<Rightarrow>
               bind_err (overlap_loop c (zip chrom_starts (zip chrom_ends chrom_cn)) zero_sums)
                 (classify_events chrom_name c threshold)
           | _ \<Rightarrow> Inl KeyError))"

section \<open>The gene overlap annotator: \<^verbatim>\<open>get_overlap_genes\<close>\<close>

text \<open>
  The class \<^verbatim>\<open>Gene\<close>; its fields \<^verbatim>\<open>name\<close>, \<^verbatim>\<open>chrom\<close>, \<^verbatim>\<open>start\<close>, \<^verbatim>\<open>end\<close> carry the
  prefix \<open>gene_\<close> here. The gene table maps a chromosome to a dictionary from Entrez
  identifier to \<^verbatim>\<open>Gene\<close>, both in insertion order.
\<close>

record gene =
  gene_name :: string
  gene_chrom :: string
  gene_start :: int
  gene_end :: int

type_synonym gene_table = "(string \<times> (string \<times> gene) list) list"

fun gene_loop ::
  "int \<Rightarrow> int \<Rightarrow> int \<Rightarrow> (string \<times> gene) list \<Rightarrow> string list \<Rightarrow> py_error + string list" where
  "gene_loop start end copy_num [] olap_genes = Inr olap_genes"
| "gene_loop start end copy_num ((entrez_id, gene_info) # rest) olap_genes =
     (if start < gene_end gene_info \<and> end > gene_start gene_info then
        (if copy_num < 2 then
           gene_loop start end copy_num rest (olap_genes @ [entrez_id])
         else if copy_num > 2 then
           (if start > gene_start gene_info \<or> end < gene_end gene_info
            then gene_loop start end copy_num rest olap_genes
            else gene_loop start end copy_num rest (olap_genes @ [entrez_id]))
         else Inl InvalidCNState)
      else gene_loop start end copy_num rest olap_genes)"

definition get_overlap_genes ::
  "string \<Rightarrow> int \<Rightarrow> int \<Rightarrow> int \<Rightarrow> gene_table \<Rightarrow> py_error + string list" where
  "get_overlap_genes chrom0 start end copy_num gene_cords =
     (case gene_cords of
        [] \<Rightarrow> Inl StopIteration
      | (first_key, first_genes) # others \<Rightarrow>
          let is_prefixed = startswith_chr first_key;
              name = (if is_prefixed \<and> \<not> startswith_chr chrom0 then ''chr'' @ chrom0
                      else if \<not> is_prefixed \<and> startswith_chr chrom0 then remove_chr chrom0
                      else chrom0)
          in case map_of gene_cords name of
               None \<Rightarrow> Inr []
             | Some genes_on_chrom \<Rightarrow> gene_loop start end copy_num genes_on_chrom [])"

section \<open>Vocabulary of the properties and example inputs\<close>

subsection \<open>Gene overlap\<close>

text \<open>
  A segment \<open>[start, end)\<close> intersects a gene when each begins before the other ends;
  it contains the gene when the gene lies inside it.
\<close>

definition gene_intersects :: "int \<Rightarrow> int \<Rightarrow> gene \<Rightarrow> bool" where
  "gene_intersects start end g = (start < gene_end g \<and> gene_start g < end)"

definition gene_contained :: "int \<Rightarrow> int \<Rightarrow> gene \<Rightarrow> bool" where
  "gene_contained start end g = (start \<le> gene_start g \<and> gene_end g \<le> end)"

definition gene_qualifies :: "int \<Rightarrow> int \<Rightarrow> int \<Rightarrow> gene \<Rightarrow> bool" where
  "gene_qualifies start end cn g =
     (gene_intersects start end g \<and> (cn < 2 \<or> (cn > 2 \<and> gene_contained start end g)))"

text \<open>
  The genes of the segment's chromosome: the entry of the table under the chromosome
  name, after the prefix of the name was aligned with the table's first key.
\<close>

definition genes_on :: "gene_table \<Rightarrow> string \<Rightarrow> (string \<times> gene) list" where
  "genes_on gene_cords cname =
     (case gene_cords of
        [] \<Rightarrow> []
      | (first_key, first_genes) # others \<Rightarrow>
          (case map_of gene_cords
                  (normalize_name (Some (startswith_chr first_key)) cname) of
             None \<Rightarrow> []
           | Some genes \<Rightarrow> genes))"

definition returned_ids :: "py_error + string list \<Rightarrow> string set" where
  "returned_ids r = (case r of Inl err \<Rightarrow> {} | Inr ids \<Rightarrow> set ids)"

definition genes1 :: gene_table where
  "genes1 =
     [(''1'',
       [(''604'', \<lparr>gene_name = ''604'', gene_chrom = ''1'', gene_start = 20, gene_end = 30\<rparr>),
        (''4609'', \<lparr>gene_name = ''4609'', gene_chrom = ''1'', gene_start = 40, gene_end = 60\<rparr>)])]"

subsection \<open>Ploidy\<close>

text \<open>The segments the profile holds under a chromosome name, as the loops zip them.\<close>

definition profile_segments :: "sample_cnvs \<Rightarrow> string \<Rightarrow> (int \<times> int \<times> int) list" where
  "profile_segments self name =
     (case (map_of (starts self) name, map_of (ends self) name, map_of (cn_states self) name) of
        (Some s, Some e, Some c) \<Rightarrow> zip s (zip e c)
      | _ \<Rightarrow> [])"








definition profile_keyed :: "sample_cnvs \<Rightarrow> bool" where
  "profile_keyed self =
     list_all (\<lambda>(name, s). map_of (ends self) name \<noteq> None
                          \<and> map_of (cn_states self) name \<noteq> None) (starts self)"


definition arms1 :: "(string \<times> chromosome) list" where
  "arms1 =
     [(''1'', \<lparr>chrom = ''1'', p_start = Some 0, p_end = Some 50, q_start = Some 50,
               q_end = Some 100, q_length = 50, p_length = 50\<rparr>)]"

definition arms_p_only :: "(string \<times> chromosome) list" where
  "arms_p_only =
     [(''1'', \<lparr>chrom = ''1'', p_start = Some 0, p_end = Some 50, q_start = None,
               q_end = None, q_length = 0, p_length = 50\<rparr>)]"

definition one_segment :: "int \<Rightarrow> int \<Rightarrow> int \<Rightarrow> sample_cnvs" where
  "one_segment start end cn =
     \<lparr>starts = [(''1'', [start])], ends = [(''1'', [end])], cn_states = [(''1'', [cn])],
      len_seg = [(''1'', 1)], is_chr_prefixed = Some False, ploidy = None\<rparr>"

text \<open>The arm table with the placeholders written into every entry.\<close>

definition with_placeholders :: "(string \<times> chromosome) list \<Rightarrow> (string \<times> chromosome) list" where
  "with_placeholders arm_coords = map (\<lambda>(key, c). (key, set_placeholders c)) arm_coords"



subsection \<open>Segments and the partition invariant\<close>

text \<open>
  The three parallel lists of a chromosome read as one list of segments
  \<open>(start, end, cn)\<close>. A list of segments is a \<open>chain\<close> when every segment has
  \<open>start < end\<close> and every segment ends before any later one starts.
\<close>

type_synonym segment = "int \<times> int \<times> int"

definition seg_start :: "segment \<Rightarrow> int" where
  "seg_start x = fst x"

definition seg_end :: "segment \<Rightarrow> int" where
  "seg_end x = fst (snd x)"

definition seg_cn :: "segment \<Rightarrow> int" where
  "seg_cn x = snd (snd x)"

definition unzip3 :: "segment list \<Rightarrow> cnv_lists" where
  "unzip3 xs = (map seg_start xs, map seg_end xs, map seg_cn xs)"

definition chain :: "segment list \<Rightarrow> bool" where
  "chain xs =
     (list_all (\<lambda>x. seg_start x < seg_end x) xs
      \<and> sorted_wrt (\<lambda>a b. seg_end a \<le> seg_start b) xs)"





subsection \<open>Arm classification\<close>

text \<open>
  The statements of \<open>classify_family\<close> on the outcomes of its six comparisons, for arm
  lengths that are not zero (so that no division raises).
\<close>

definition family_labels ::
  "string \<Rightarrow> event \<Rightarrow> event \<Rightarrow> bool \<Rightarrow> bool \<Rightarrow> bool \<Rightarrow> bool \<Rightarrow> bool \<Rightarrow> bool
   \<Rightarrow> (string \<times> event) list \<Rightarrow> (string \<times> event) list" where
  "family_labels chrom_name hi_label lo_label whole_hi p_hi q_hi whole_lo p_lo q_lo events =
     (if whole_hi then AList.update (chrom_name @ ''Chrom'') hi_label events
      else
        let events1 =
              (if p_hi then AList.update (chrom_name @ ''p'') hi_label events
               else if q_hi then AList.update (chrom_name @ ''q'') hi_label events
               else events)
        in if map_of events1 (chrom_name @ ''Chrom'') = None \<and> whole_lo
           then AList.update (chrom_name @ ''Chrom'') lo_label events1
           else
             let events2 =
                   (if map_of events1 (chrom_name @ ''p'') = None \<and> p_lo
                    then AList.update (chrom_name @ ''p'') lo_label events1
                    else events1)
             in if map_of events2 (chrom_name @ ''q'') = None \<and> q_lo
                then AList.update (chrom_name @ ''q'') lo_label events2
                else events2)"

definition above :: "rat \<Rightarrow> int \<Rightarrow> int \<Rightarrow> bool" where
  "above threshold amount len = (of_int amount / of_int len > threshold)"

text \<open>The labels of each family in a result, and the totals with one family set to zero.\<close>

definition loss_part :: "(string \<times> event) list \<Rightarrow> (string \<times> event) list" where
  "loss_part events = filter (\<lambda>(key, label). label = HOMDEL \<or> label = HETLOSS) events"

definition gain_part :: "(string \<times> event) list \<Rightarrow> (string \<times> event) list" where
  "gain_part events = filter (\<lambda>(key, label). label = AMP \<or> label = GAIN) events"

definition without_gain :: "event_sums \<Rightarrow> event_sums" where
  "without_gain totals = totals\<lparr>gain_sum := zero_arm_sums, amp_sum := zero_arm_sums\<rparr>"

definition without_loss :: "event_sums \<Rightarrow> event_sums" where
  "without_loss totals = totals\<lparr>homdel_sum := zero_arm_sums, del_sum := zero_arm_sums\<rparr>"

text \<open>
  A chromosome ready for classification: the four coordinates are set, each window
  runs forward and is no longer than the arm length stored with it, and both lengths
  are positive. Loaded arms and placeholder arms are of this kind.
\<close>

definition arm_ok :: "chromosome \<Rightarrow> bool" where
  "arm_ok c =
     (case (p_start c, p_end c, q_start c, q_end c) of
        (Some ps, Some pe, Some qs, Some qe) \<Rightarrow>
          ps \<le> pe \<and> qs \<le> qe \<and> pe - ps \<le> p_length c \<and> qe - qs \<le> q_length c
          \<and> 0 < p_length c \<and> 0 < q_length c
      | _ \<Rightarrow> False)"

text \<open>The overlap of a segment with the p window and with the q window, 0 when not counted.\<close>

definition p_olap :: "chromosome \<Rightarrow> segment \<Rightarrow> int" where
  "p_olap c x =
     (case arm_overlaps c (seg_start x) (seg_end x) of
        Inr (Some n, q) \<Rightarrow> n
      | _ \<Rightarrow> 0)"

definition q_olap :: "chromosome \<Rightarrow> segment \<Rightarrow> int" where
  "q_olap c x =
     (case arm_overlaps c (seg_start x) (seg_end x) of
        Inr (p, Some n) \<Rightarrow> n
      | _ \<Rightarrow> 0)"

text \<open>
  What the running totals satisfy when the overlaps counted so far add up to at most
  \<open>P\<close> on the p arm and \<open>Q\<close> on the q arm.
\<close>

definition tally_ok :: "event_sums \<Rightarrow> int \<Rightarrow> int \<Rightarrow> bool" where
  "tally_ok t P Q =
     (0 \<le> sum_p (amp_sum t) \<and> sum_p (amp_sum t) \<le> sum_p (gain_sum t)
      \<and> 0 \<le> sum_p (homdel_sum t) \<and> sum_p (homdel_sum t) \<le> sum_p (del_sum t)
      \<and> sum_p (gain_sum t) + sum_p (del_sum t) \<le> P
      \<and> 0 \<le> sum_q (amp_sum t) \<and> sum_q (amp_sum t) \<le> sum_q (gain_sum t)
      \<and> 0 \<le> sum_q (homdel_sum t) \<and> sum_q (homdel_sum t) \<le> sum_q (del_sum t)
      \<and> sum_q (gain_sum t) + sum_q (del_sum t) \<le> Q
      \<and> sum_Chrom (amp_sum t) = sum_p (amp_sum t) + sum_q (amp_sum t)
      \<and> sum_Chrom (gain_sum t) = sum_p (gain_sum t) + sum_q (gain_sum t)
      \<and> sum_Chrom (homdel_sum t) = sum_p (homdel_sum t) + sum_q (homdel_sum t)
      \<and> sum_Chrom (del_sum t) = sum_p (del_sum t) + sum_q (del_sum t))"

definition arm_1 :: chromosome where
  "arm_1 = \<lparr>chrom = ''1'', p_start = Some 0, p_end = Some 100, q_start = Some 100,
            q_end = Some 200, q_length = 100, p_length = 100\<rparr>"

definition two_segments :: "int \<Rightarrow> int \<Rightarrow> sample_cnvs" where
  "two_segments cn1 cn2 =
     \<lparr>starts = [(''1'', [0, 100])], ends = [(''1'', [100, 200])],
      cn_states = [(''1'', [cn1, cn2])], len_seg = [(''1'', 1)],
      is_chr_prefixed = Some False, ploidy = Some 2\<rparr>"

(* Proofs *)
section \<open>Insertion: when \<^verbatim>\<open>add\<close> fails\<close>

text \<open>The consolidator itself never raises the invalid-segment error.\<close>

lemma merge_never_InvalidSegment:
  "merge_overlapping_cnvs ex s e c = Some r \<Longrightarrow> r \<noteq> Inl InvalidSegment"
  apply (erule merge_overlapping_cnvs.raw_induct
      [rotated, where P = "\<lambda>ex s e c r. r \<noteq> Inl InvalidSegment"])
  apply (auto simp: Let_def
      split: prod.splits if_splits resolution.splits sum.splits Option.bind_splits)
  done

text \<open>
  Claim C9. On every profile, \<^verbatim>\<open>add\<close> raises the invalid-segment error exactly when
  \<open>end < start\<close>; a call with \<open>start = end\<close> returns normally and leaves the profile
  as it was.
\<close>

theorem add_fails_iff_end_before_start:
  "(add self cname start end cn = Some (Inl InvalidSegment) \<longleftrightarrow> end < start)
   \<and> (start = end \<longrightarrow> add self cname start end cn = Some (Inr self))"
  by (auto simp: add_def Let_def split: option.splits sum.splits prod.splits
      dest: merge_never_InvalidSegment)

theorem add_fails_iff_end_before_start_witness:
  "add SampleCNVs_init ''chr1'' 5 5 3 = Some (Inr SampleCNVs_init)
   \<and> add SampleCNVs_init ''chr1'' 7 5 3 = Some (Inl InvalidSegment)
   \<and> add SampleCNVs_init ''chr1'' 5 7 3 \<noteq> Some (Inl InvalidSegment)"
  using add_fails_iff_end_before_start [of SampleCNVs_init "''chr1''" 5 5 3]
    add_fails_iff_end_before_start [of SampleCNVs_init "''chr1''" 7 5 3]
    add_fails_iff_end_before_start [of SampleCNVs_init "''chr1''" 5 7 3]
  by simp

section \<open>Gene overlap annotation\<close>

lemma gene_intersects_sets:
  "start < end \<Longrightarrow> gene_start g < gene_end g \<Longrightarrow>
     gene_intersects start end g \<longleftrightarrow> {start..<end} \<inter> {gene_start g..<gene_end g} \<noteq> {}"
  by (auto simp: gene_intersects_def)

lemma gene_loop_neutral:
  "gene_loop start end 2 genes acc =
     (if \<exists>x \<in> set genes. gene_intersects start end (snd x) then Inl InvalidCNState
      else Inr acc)"
proof (induction genes arbitrary: acc)
  case Nil
  show ?case by simp
next
  case (Cons x genes)
  obtain gid g where x: "x = (gid, g)" by (cases x)
  show ?case by (simp add: x Cons.IH gene_intersects_def)
qed

lemma genes_on_Nil: "genes_on [] cname = []"
  by (simp add: genes_on_def)

lemma gene_loop_eq:
  "cn \<noteq> 2 \<Longrightarrow> gene_loop start end cn genes acc =
     Inr (acc @ map fst (filter (\<lambda>(gid, g). gene_qualifies start end cn g) genes))"
  by (induction genes arbitrary: acc)
     (auto simp: gene_qualifies_def gene_intersects_def gene_contained_def)

lemma get_overlap_genes_eq:
  "get_overlap_genes cname start end cn gene_cords =
     (if gene_cords = [] then Inl StopIteration
      else gene_loop start end cn (genes_on gene_cords cname) [])"
  by (auto simp: get_overlap_genes_def genes_on_def normalize_name_def Let_def
      split: list.splits option.splits)

text \<open>
  Claim C5. For a segment with \<open>cn \<noteq> 2\<close> the annotator returns (it does on every
  non-empty gene table) and a gene identifier is returned exactly when the gene is on
  the segment's chromosome, intersects the segment and, for a gain, lies inside it.
\<close>

theorem focal_genes_iff:
  "cn \<noteq> 2 \<Longrightarrow>
     (gene_cords \<noteq> [] \<longrightarrow> (\<exists>ids. get_overlap_genes cname start end cn gene_cords = Inr ids))
     \<and> (\<forall>gid. gid \<in> returned_ids (get_overlap_genes cname start end cn gene_cords) \<longleftrightarrow>
           (\<exists>g. (gid, g) \<in> set (genes_on gene_cords cname)
                \<and> gene_intersects start end g
                \<and> (cn < 2 \<or> (cn > 2 \<and> gene_contained start end g))))"
  by (force simp: get_overlap_genes_eq gene_loop_eq returned_ids_def gene_qualifies_def
        genes_on_Nil)

theorem focal_genes_iff_witness:
  "get_overlap_genes ''chr1'' 10 50 1 genes1 = Inr [''604'', ''4609'']
   \<and> get_overlap_genes ''chr1'' 10 50 3 genes1 = Inr [''604'']
   \<and> ''4609'' \<notin> returned_ids (get_overlap_genes ''chr1'' 10 50 3 genes1)
   \<and> ''4609'' \<in> returned_ids (get_overlap_genes ''chr1'' 10 50 1 genes1)"
proof -
  have g: "genes_on genes1 ''chr1'' = snd (hd genes1)"
    by (simp add: genes_on_def genes1_def normalize_name_def startswith_chr_def)
  have a: "get_overlap_genes ''chr1'' 10 50 1 genes1 = Inr [''604'', ''4609'']"
    by (simp add: get_overlap_genes_def genes1_def startswith_chr_def)
  have b: "get_overlap_genes ''chr1'' 10 50 3 genes1 = Inr [''604'']"
    by (simp add: get_overlap_genes_def genes1_def startswith_chr_def)
  from focal_genes_iff [of 3 genes1 "''chr1''" 10 50, unfolded g]
  have "''4609'' \<notin> returned_ids (get_overlap_genes ''chr1'' 10 50 3 genes1)"
    by (simp add: gene_intersects_def gene_contained_def) (simp add: genes1_def)
  moreover from focal_genes_iff [of 1 genes1 "''chr1''" 10 50, unfolded g]
  have "''4609'' \<in> returned_ids (get_overlap_genes ''chr1'' 10 50 1 genes1)"
    by (simp add: gene_intersects_def gene_contained_def) (simp add: genes1_def)
  ultimately show ?thesis using a b by simp
qed

text \<open>
  Claim C7 as stated fails: a copy-neutral segment that meets no gene is answered
  with the empty list.
\<close>

theorem copy_neutral_no_error_counterexample:
  "get_overlap_genes ''1'' 0 10 2 genes1 = Inr []"
  by (simp add: get_overlap_genes_def genes1_def startswith_chr_def)

text \<open>
  Claim C7, amended. With \<open>cn = 2\<close> the annotator raises the copy-neutral error
  exactly when some gene of the segment's chromosome intersects the segment; on a
  non-empty table with no such gene it returns the empty list.
\<close>

theorem copy_neutral_fails_iff_gene_hit:
  "(get_overlap_genes cname start end 2 gene_cords = Inl InvalidCNState \<longleftrightarrow>
      (\<exists>x \<in> set (genes_on gene_cords cname). gene_intersects start end (snd x)))
   \<and> (gene_cords \<noteq> [] \<and> \<not> (\<exists>x \<in> set (genes_on gene_cords cname). gene_intersects start end (snd x))
        \<longrightarrow> get_overlap_genes cname start end 2 gene_cords = Inr [])"
  by (simp add: get_overlap_genes_eq gene_loop_neutral genes_on_Nil)

theorem copy_neutral_fails_iff_gene_hit_witness:
  "get_overlap_genes ''1'' 0 25 2 genes1 = Inl InvalidCNState
   \<and> get_overlap_genes ''1'' 0 10 2 genes1 = Inr []"
proof -
  have g: "genes_on genes1 ''1'' = snd (hd genes1)"
    by (simp add: genes_on_def genes1_def normalize_name_def startswith_chr_def)
  from copy_neutral_fails_iff_gene_hit [of "''1''" 0 25 genes1, unfolded g]
  have "get_overlap_genes ''1'' 0 25 2 genes1 = Inl InvalidCNState"
    by (simp add: gene_intersects_def) (simp add: genes1_def)
  moreover from copy_neutral_fails_iff_gene_hit [of "''1''" 0 10 genes1, unfolded g]
  have "get_overlap_genes ''1'' 0 10 2 genes1 = Inr []"
    by (simp add: gene_intersects_def) (simp add: genes1_def)
  ultimately show ?thesis by simp
qed

section \<open>Ploidy normalization\<close>

lemma one_segment_is_add:
  "add SampleCNVs_init ''chr1'' 0 100 4 = Some (Inr (one_segment 0 100 4))"
  by (simp add: add_def SampleCNVs_init_def one_segment_def startswith_chr_def Let_def)

lemma arms1_is_loaded:
  "bind_err (Chromosome_add (Chromosome_init ''1'') 0 50 ''p'') (\<lambda>c. Chromosome_add c 50 100 ''q'')
     = Inr (snd (hd arms1))"
  by (simp add: Chromosome_add_def Chromosome_init_def bind_err_def arms1_def)

text \<open>
  Claim C10. When \<^verbatim>\<open>adjust_ploidy\<close> raises (the ploidy below 1, or any other
  exception), the profile is exactly as it was before the call: its segment lists and
  its cached ploidy are written only after the last check.
\<close>

theorem adjust_ploidy_error_keeps_profile:
  "fst (adjust_ploidy self arm_coords redo) = Inl err \<Longrightarrow>
     fst (snd (adjust_ploidy self arm_coords redo)) = self"
  by (auto simp: adjust_ploidy_def Let_def split: if_splits prod.splits sum.splits)

lemma zero_copy_ploidy_raises:
  "adjust_ploidy (one_segment 0 100 0) arms1 False = (Inl InvalidPloidy, one_segment 0 100 0, arms1)"
  by code_simp

theorem adjust_ploidy_error_keeps_profile_witness:
  "fst (adjust_ploidy (one_segment 0 100 0) arms1 False) = Inl InvalidPloidy
   \<and> fst (snd (adjust_ploidy (one_segment 0 100 0) arms1 False)) = one_segment 0 100 0"
proof -
  have e: "fst (adjust_ploidy (one_segment 0 100 0) arms1 False) = Inl InvalidPloidy"
    by (simp add: zero_copy_ploidy_raises)
  from adjust_ploidy_error_keeps_profile [OF e] e show ?thesis by simp
qed

subsection \<open>What the call writes into the arm table\<close>

lemma set_placeholders_id:
  "p_start c \<noteq> None \<Longrightarrow> q_start c \<noteq> None \<Longrightarrow> set_placeholders c = c"
  by (auto simp: set_placeholders_def Let_def)

lemma ploidy_chrom_loop_table:
  "\<exists>n \<le> length arm_coords.
     snd (ploidy_chrom_loop self arm_coords cov g) =
       with_placeholders (take n arm_coords) @ drop n arm_coords"
proof (induction arm_coords arbitrary: cov g)
  case Nil
  show ?case by (simp add: with_placeholders_def)
next
  case (Cons a arm_coords)
  obtain key c0 where a: "a = (key, c0)" by (cases a)
  have one: "\<exists>n \<le> length (a # arm_coords). (key, set_placeholders c0) # arm_coords =
      with_placeholders (take n (a # arm_coords)) @ drop n (a # arm_coords)"
    by (rule exI [of _ 1]) (simp add: a with_placeholders_def)
  have more: "\<exists>n \<le> length (a # arm_coords).
      (key, set_placeholders c0) # snd (ploidy_chrom_loop self arm_coords cov' g') =
      with_placeholders (take n (a # arm_coords)) @ drop n (a # arm_coords)" for cov' g'
  proof -
    from Cons.IH [of cov' g'] obtain n where n: "n \<le> length arm_coords"
      "snd (ploidy_chrom_loop self arm_coords cov' g') =
         with_placeholders (take n arm_coords) @ drop n arm_coords" by blast
    show ?thesis by (rule exI [of _ "Suc n"]) (simp add: a n with_placeholders_def)
  qed
  show ?case
    using one more
    by (simp add: a Let_def case_prod_beta split: option.splits sum.splits)
qed

lemma with_placeholders_id:
  "list_all (\<lambda>(key, c). p_start c \<noteq> None \<and> q_start c \<noteq> None) arm_coords \<Longrightarrow>
     with_placeholders arm_coords = arm_coords"
  by (induction arm_coords) (auto simp: with_placeholders_def set_placeholders_id)

text \<open>
  Claim C6, amended. \<^verbatim>\<open>adjust_ploidy\<close> leaves the keys and the order of the arm table
  alone and rewrites only entries it visits, each into the same entry with the
  placeholder in its unset arms; an entry whose two arms are set is unchanged, so a
  table with every arm set comes back as it was. (\<^verbatim>\<open>overlap_chrom\<close> and
  \<^verbatim>\<open>get_overlap_genes\<close> assign to no field of either table, which is why their models
  return no table.)
\<close>

theorem adjust_ploidy_arm_table:
  "(\<exists>n \<le> length arm_coords.
      snd (snd (adjust_ploidy self arm_coords redo)) =
        with_placeholders (take n arm_coords) @ drop n arm_coords)
   \<and> (list_all (\<lambda>(key, c). p_start c \<noteq> None \<and> q_start c \<noteq> None) arm_coords
        \<longrightarrow> snd (snd (adjust_ploidy self arm_coords redo)) = arm_coords)"
proof -
  have tbl: "snd (snd (adjust_ploidy self arm_coords redo)) = arm_coords
     \<or> snd (snd (adjust_ploidy self arm_coords redo)) = snd (ploidy_chrom_loop self arm_coords [] 0)"
    by (auto simp: adjust_ploidy_def Let_def split: if_splits prod.splits sum.splits)
  have first: "\<exists>n \<le> length arm_coords.
      snd (snd (adjust_ploidy self arm_coords redo)) =
        with_placeholders (take n arm_coords) @ drop n arm_coords"
    using tbl
  proof
    assume "snd (snd (adjust_ploidy self arm_coords redo)) = arm_coords"
    then show ?thesis by (intro exI [of _ 0]) (simp add: with_placeholders_def)
  next
    assume "snd (snd (adjust_ploidy self arm_coords redo)) = snd (ploidy_chrom_loop self arm_coords [] 0)"
    then show ?thesis using ploidy_chrom_loop_table [of arm_coords self "[]" 0] by simp
  qed
  have second: "snd (snd (adjust_ploidy self arm_coords redo)) = arm_coords"
    if all: "list_all (\<lambda>(key, c). p_start c \<noteq> None \<and> q_start c \<noteq> None) arm_coords"
  proof -
    have "list_all (\<lambda>(key, c). p_start c \<noteq> None \<and> q_start c \<noteq> None) (take n arm_coords)" for n
      using all by (auto simp: list_all_iff dest: in_set_takeD)
    then have "with_placeholders (take n arm_coords) = take n arm_coords" for n
      by (rule with_placeholders_id)
    with first show ?thesis by auto
  qed
  from first second show ?thesis by blast
qed

text \<open>
  Claim C6 as stated fails: a chromosome whose q arm was never set comes back from
  \<^verbatim>\<open>adjust_ploidy\<close> with the placeholder written into it.
\<close>

theorem adjust_ploidy_mutates_arm_table_counterexample:
  "snd (snd (adjust_ploidy (one_segment 0 50 4) arms_p_only False)) \<noteq> arms_p_only"
  by code_simp

theorem adjust_ploidy_arm_table_witness:
  "snd (snd (adjust_ploidy (one_segment 0 100 4) arms1 False)) = arms1"
proof -
  have "list_all (\<lambda>(key, c). p_start c \<noteq> None \<and> q_start c \<noteq> None) arms1"
    by (simp add: arms1_def)
  with adjust_ploidy_arm_table [of arms1 "one_segment 0 100 4" False] show ?thesis by blast
qed

subsection \<open>The value of the ploidy\<close>







lemma profile_keyed_lookup:
  "profile_keyed self \<Longrightarrow> map_of (starts self) name = Some s \<Longrightarrow>
     \<exists>e c. map_of (ends self) name = Some e \<and> map_of (cn_states self) name = Some c"
  by (auto simp: profile_keyed_def list_all_iff dest!: map_of_SomeD)







section \<open>The interval consolidator\<close>

subsection \<open>Binary search on a list split at the searched value\<close>

declare bisect_right_loop.simps [simp del] bisect_left_loop.simps [simp del]

lemma bisect_right_loop_split:
  assumes pre: "\<forall>p \<in> set pre. p \<le> x" and post: "\<forall>q \<in> set post. x < q"
  shows "lo \<le> length pre \<Longrightarrow> length pre \<le> hi \<Longrightarrow> hi \<le> length pre + length post \<Longrightarrow>
    bisect_right_loop (pre @ post) x lo hi = length pre"
proof (induction "hi - lo" arbitrary: lo hi rule: less_induct)
  case less
  show ?case
  proof (cases "lo < hi")
    case False
    with less.prems show ?thesis by (subst bisect_right_loop.simps) simp
  next
    case True
    let ?mid = "(lo + hi) div 2"
    from True have mid: "lo \<le> ?mid" "?mid < hi" by auto
    show ?thesis
    proof (cases "?mid < length pre")
      case True
      then have "(pre @ post) ! ?mid \<le> x" using pre by (simp add: nth_append)
      then have "bisect_right_loop (pre @ post) x lo hi = bisect_right_loop (pre @ post) x (?mid + 1) hi"
        using \<open>lo < hi\<close> by (subst bisect_right_loop.simps) simp
      also have "\<dots> = length pre"
        using True mid less.prems by (intro less.hyps) auto
      finally show ?thesis .
    next
      case False
      with mid less.prems have "?mid - length pre < length post" by auto
      then have "x < post ! (?mid - length pre)" using post by simp
      with False have "x < (pre @ post) ! ?mid" by (simp add: nth_append)
      then have "bisect_right_loop (pre @ post) x lo hi = bisect_right_loop (pre @ post) x lo ?mid"
        using \<open>lo < hi\<close> by (subst bisect_right_loop.simps) simp
      also have "\<dots> = length pre"
        using False mid less.prems by (intro less.hyps) auto
      finally show ?thesis .
    qed
  qed
qed

lemma bisect_left_loop_split:
  assumes pre: "\<forall>p \<in> set pre. p < x" and post: "\<forall>q \<in> set post. x \<le> q"
  shows "lo \<le> length pre \<Longrightarrow> length pre \<le> hi \<Longrightarrow> hi \<le> length pre + length post \<Longrightarrow>
    bisect_left_loop (pre @ post) x lo hi = length pre"
proof (induction "hi - lo" arbitrary: lo hi rule: less_induct)
  case less
  show ?case
  proof (cases "lo < hi")
    case False
    with less.prems show ?thesis by (subst bisect_left_loop.simps) simp
  next
    case True
    let ?mid = "(lo + hi) div 2"
    from True have mid: "lo \<le> ?mid" "?mid < hi" by auto
    show ?thesis
    proof (cases "?mid < length pre")
      case True
      then have "(pre @ post) ! ?mid < x" using pre by (simp add: nth_append)
      then have "bisect_left_loop (pre @ post) x lo hi = bisect_left_loop (pre @ post) x (?mid + 1) hi"
        using \<open>lo < hi\<close> by (subst bisect_left_loop.simps) simp
      also have "\<dots> = length pre"
        using True mid less.prems by (intro less.hyps) auto
      finally show ?thesis .
    next
      case False
      with mid less.prems have "?mid - length pre < length post" by auto
      then have "x \<le> post ! (?mid - length pre)" using post by simp
      with False have "\<not> (pre @ post) ! ?mid < x" by (simp add: nth_append)
      then have "bisect_left_loop (pre @ post) x lo hi = bisect_left_loop (pre @ post) x lo ?mid"
        using \<open>lo < hi\<close> by (subst bisect_left_loop.simps) simp
      also have "\<dots> = length pre"
        using False mid less.prems by (intro less.hyps) auto
      finally show ?thesis .
    qed
  qed
qed

lemma bisect_right_split:
  "\<forall>p \<in> set pre. p \<le> x \<Longrightarrow> \<forall>q \<in> set post. x < q \<Longrightarrow> bisect_right (pre @ post) x = length pre"
  by (simp add: bisect_right_def bisect_right_loop_split)

lemma bisect_left_split:
  "\<forall>p \<in> set pre. p < x \<Longrightarrow> \<forall>q \<in> set post. x \<le> q \<Longrightarrow> bisect_left (pre @ post) x = length pre"
  by (simp add: bisect_left_def bisect_left_loop_split)

subsection \<open>Chains of segments\<close>

lemma seg_simps [simp]:
  "seg_start (s, e, c) = s" "seg_end (s, e, c) = e" "seg_cn (s, e, c) = c"
  by (simp_all add: seg_start_def seg_end_def seg_cn_def)

lemma chain_Nil [simp]: "chain []"
  by (simp add: chain_def)

lemma chain_Cons:
  "chain (x # xs) \<longleftrightarrow>
     seg_start x < seg_end x \<and> (\<forall>y \<in> set xs. seg_end x \<le> seg_start y) \<and> chain xs"
  by (auto simp: chain_def)

lemma chain_append:
  "chain (xs @ ys) \<longleftrightarrow>
     chain xs \<and> chain ys \<and> (\<forall>x \<in> set xs. \<forall>y \<in> set ys. seg_end x \<le> seg_start y)"
  by (auto simp: chain_def sorted_wrt_append)

lemma chain_valid: "chain xs \<Longrightarrow> x \<in> set xs \<Longrightarrow> seg_start x < seg_end x"
  by (auto simp: chain_def list_all_iff)


lemma bisect_right_ends:
  assumes "\<forall>p \<in> set pre. seg_end p \<le> ns" and "\<forall>q \<in> set rest. ns < seg_end q"
  shows "bisect_right (map seg_end (pre @ rest)) ns = length pre"
  using bisect_right_split [of "map seg_end pre" ns "map seg_end rest"] assms by simp

lemma bisect_left_starts:
  assumes "\<forall>p \<in> set pre. seg_start p < ne" and "\<forall>q \<in> set rest. ne \<le> seg_start q"
  shows "bisect_left (map seg_start (pre @ rest)) ne = length pre"
  using bisect_left_split [of "map seg_start pre" ne "map seg_start rest"] assms by simp

lemma pop_at_mid: "length pre = n \<Longrightarrow> pop_at n (pre @ x # rest) = pre @ rest"
  by (simp add: pop_at_def)

lemma insert_at_mid: "length pre = n \<Longrightarrow> insert_at n y (pre @ rest) = pre @ y # rest"
  by (simp add: insert_at_def)

lemma nth_mid: "length pre = n \<Longrightarrow> (pre @ x # rest) ! n = x"
  by auto

text \<open>No overlap: the segment is inserted at its place.\<close>

lemma merge_no_overlap:
  assumes "\<forall>p \<in> set pre. seg_end p \<le> ns \<and> seg_start p < ne"
    and "\<forall>q \<in> set post. ns < seg_end q \<and> ne \<le> seg_start q"
  shows "merge_overlapping_cnvs (unzip3 (pre @ post)) ns ne nc =
           Some (Inr (unzip3 (pre @ (ns, ne, nc) # post)))"
proof -
  have i: "bisect_right (map seg_end (pre @ post)) ns = length pre"
    using assms by (intro bisect_right_ends) auto
  have j: "bisect_left (map seg_start (pre @ post)) ne = length pre"
    using assms by (intro bisect_left_starts) auto
  show ?thesis
    by (subst merge_overlapping_cnvs.simps)
       (simp add: unzip3_def i [simplified] j [simplified] insert_at_mid)
qed

subsection \<open>One step of the consolidator\<close>

lemma reduce_old_lists_mid:
  "reduce_old_lists (length pre) (unzip3 (pre @ old # rest)) ns ne
      (seg_start old) (seg_end old) (seg_cn old) =
     unzip3 (pre @ (if seg_start old < ns then [(seg_start old, ns, seg_cn old)] else [])
                 @ (if ne < seg_end old then [(ne, seg_end old, seg_cn old)] else [])
                 @ rest)"
  by (simp add: reduce_old_lists_def unzip3_def pop_at_mid insert_at_mid Let_def)

lemma merge_overlap_step:
  assumes "\<forall>p \<in> set pre. seg_end p \<le> ns"
    and "\<forall>q \<in> set (old # rest). ns < seg_end q"
    and "bisect_left (map seg_start (pre @ old # rest)) ne \<noteq> length pre"
  shows "merge_overlapping_cnvs (unzip3 (pre @ old # rest)) ns ne nc =
     (if seg_cn old = nc then
        merge_overlapping_cnvs (unzip3 (pre @ rest))
          (if seg_start old < ns then seg_start old else ns)
          (if seg_end old > ne then seg_end old else ne) nc
      else
        (case resolve ns ne nc (seg_start old) (seg_end old) (seg_cn old) of
           ReduceNew \<Rightarrow>
             Option.bind
               (if ns < seg_start old
                then merge_overlapping_cnvs (unzip3 (pre @ old # rest)) ns (seg_start old) nc
                else Some (Inr (unzip3 (pre @ old # rest))))
               (\<lambda>r. case r of
                  Inl err \<Rightarrow> Some (Inl err)
                | Inr ex1 \<Rightarrow>
                    if seg_end old < ne
                    then merge_overlapping_cnvs ex1 (seg_end old) ne nc
                    else Some (Inr ex1))
         | ReduceOld \<Rightarrow>
             merge_overlapping_cnvs
               (unzip3 (pre @ (if seg_start old < ns then [(seg_start old, ns, seg_cn old)] else [])
                            @ (if ne < seg_end old then [(ne, seg_end old, seg_cn old)] else [])
                            @ rest))
               ns ne nc))"
proof -
  have i: "bisect_right (map seg_end (pre @ old # rest)) ns = length pre"
    using assms(1,2) by (intro bisect_right_ends) auto
  note j = assms(3)
  have old: "reduce_old_lists (length pre)
       (map seg_start pre @ seg_start old # map seg_start rest,
        map seg_end pre @ seg_end old # map seg_end rest,
        map seg_cn pre @ seg_cn old # map seg_cn rest) ns ne
      (seg_start old) (seg_end old) (seg_cn old) =
     unzip3 (pre @ (if seg_start old < ns then [(seg_start old, ns, seg_cn old)] else [])
                 @ (if ne < seg_end old then [(ne, seg_end old, seg_cn old)] else [])
                 @ rest)"
    using reduce_old_lists_mid [of pre old rest ns ne] by (simp add: unzip3_def)
  have nth: "map seg_start (pre @ old # rest) ! length pre = seg_start old"
    "map seg_end (pre @ old # rest) ! length pre = seg_end old"
    "map seg_cn (pre @ old # rest) ! length pre = seg_cn old"
    by (simp_all add: nth_append)
  have pop: "pop_at (length pre) (map seg_start (pre @ old # rest)) = map seg_start (pre @ rest)"
    "pop_at (length pre) (map seg_end (pre @ old # rest)) = map seg_end (pre @ rest)"
    "pop_at (length pre) (map seg_cn (pre @ old # rest)) = map seg_cn (pre @ rest)"
    by (simp_all add: pop_at_mid)
  have old': "reduce_old_lists (length pre)
       (map seg_start (pre @ old # rest), map seg_end (pre @ old # rest),
        map seg_cn (pre @ old # rest)) ns ne
      (seg_start old) (seg_end old) (seg_cn old) =
     unzip3 (pre @ (if seg_start old < ns then [(seg_start old, ns, seg_cn old)] else [])
                 @ (if ne < seg_end old then [(ne, seg_end old, seg_cn old)] else [])
                 @ rest)"
    using old by simp
  have unfold: "merge_overlapping_cnvs (unzip3 (pre @ old # rest)) ns ne nc =
      (if seg_cn old = nc then
         merge_overlapping_cnvs
           (pop_at (length pre) (map seg_start (pre @ old # rest)),
            pop_at (length pre) (map seg_end (pre @ old # rest)),
            pop_at (length pre) (map seg_cn (pre @ old # rest)))
           (if seg_start old < ns then seg_start old else ns)
           (if seg_end old > ne then seg_end old else ne) nc
       else
         (case resolve ns ne nc (seg_start old) (seg_end old) (seg_cn old) of
            ReduceNew \<Rightarrow>
              Option.bind
                (if ns < seg_start old
                 then merge_overlapping_cnvs (unzip3 (pre @ old # rest)) ns (seg_start old) nc
                 else Some (Inr (unzip3 (pre @ old # rest))))
                (\<lambda>r. case r of
                   Inl err \<Rightarrow> Some (Inl err)
                 | Inr ex1 \<Rightarrow>
                     if seg_end old < ne
                     then merge_overlapping_cnvs ex1 (seg_end old) ne nc
                     else Some (Inr ex1))
          | ReduceOld \<Rightarrow>
              merge_overlapping_cnvs
                (reduce_old_lists (length pre)
                   (map seg_start (pre @ old # rest), map seg_end (pre @ old # rest),
                    map seg_cn (pre @ old # rest)) ns ne
                   (seg_start old) (seg_end old) (seg_cn old))
                ns ne nc))"
    apply (subst merge_overlapping_cnvs.simps)
    apply (unfold unzip3_def prod.case Let_def i nth)
    using j apply simp
    done
  show ?thesis
    unfolding unfold pop old' by (simp add: unzip3_def)
qed

lemma chain_mid_old:
  "chain (pre @ old # rest) \<longleftrightarrow>
     chain pre \<and> chain rest \<and> seg_start old < seg_end old
     \<and> (\<forall>p \<in> set pre. seg_end p \<le> seg_start old)
     \<and> (\<forall>r \<in> set rest. seg_end old \<le> seg_start r)
     \<and> (\<forall>p \<in> set pre. \<forall>r \<in> set rest. seg_end p \<le> seg_start r)"
  by (auto simp: chain_append chain_Cons)





subsection \<open>The consolidator returns a chain\<close>







subsection \<open>Insertion keeps every chromosome partitioned\<close>







subsection \<open>Equal states and mixed families\<close>



lemma resolve_mixed:
  "(nc < 2 \<and> 2 < oc) \<or> (2 < nc \<and> oc < 2) \<Longrightarrow>
     resolve ns ne nc os oe oc = (if oe - os < ne - ns then ReduceNew else ReduceOld)"
  by (auto simp: resolve_def)

text \<open>
  Claim C4, amended. In a valid partition where the inserted segment overlaps exactly
  one existing segment \<open>old\<close> and the two CN values lie strictly on opposite sides of 2,
  both values are kept: when \<open>old\<close> spans strictly less than the inserted segment, the
  inserted one is cut around \<open>old\<close> into up to two pieces with the inserted CN and
  \<open>old\<close> stays; otherwise \<open>old\<close> is cut around the inserted segment into up to two
  pieces with its own CN and the inserted segment stays whole.
\<close>

theorem mixed_family_split:
  assumes ch: "chain (pre @ old # post)" and lt: "ns < ne"
    and pre: "\<forall>p \<in> set pre. seg_end p \<le> ns"
    and old: "ns < seg_end old \<and> seg_start old < ne"
    and post: "\<forall>q \<in> set post. ne \<le> seg_start q"
    and mixed: "(nc < 2 \<and> 2 < seg_cn old) \<or> (2 < nc \<and> seg_cn old < 2)"
  shows "merge_overlapping_cnvs (unzip3 (pre @ old # post)) ns ne nc =
     Some (Inr (unzip3
       (if seg_end old - seg_start old < ne - ns
        then pre @ (if ns < seg_start old then [(ns, seg_start old, nc)] else [])
                 @ [old]
                 @ (if seg_end old < ne then [(seg_end old, ne, nc)] else []) @ post
        else pre @ (if seg_start old < ns then [(seg_start old, ns, seg_cn old)] else [])
                 @ [(ns, ne, nc)]
                 @ (if ne < seg_end old then [(ne, seg_end old, seg_cn old)] else []) @ post)))"
proof -
  from ch have vold: "seg_start old < seg_end old"
    and pre_old: "\<forall>p \<in> set pre. seg_end p \<le> seg_start old"
    and old_post: "\<forall>q \<in> set post. seg_end old \<le> seg_start q"
    by (simp_all add: chain_mid_old)
  have vpre: "\<forall>p \<in> set pre. seg_start p < seg_end p"
    and vpost: "\<forall>q \<in> set post. seg_start q < seg_end q"
    using ch by (auto dest: chain_valid)
  have pre_ne: "\<forall>p \<in> set pre. seg_start p < ne" using pre vpre lt by fastforce
  have post_ns: "\<forall>q \<in> set post. ns < seg_end q" using post vpost lt by fastforce
  have rest_ns: "\<forall>q \<in> set (old # post). ns < seg_end q" using old post_ns by simp
  have "\<forall>p \<in> set (pre @ [old]). seg_start p < ne" using pre_ne old by simp
  from bisect_left_starts [OF this post]
  have j: "bisect_left (map seg_start (pre @ old # post)) ne \<noteq> length pre" by simp
  have ne_cn: "seg_cn old \<noteq> nc" using mixed by auto
  note step = merge_overlap_step [OF pre rest_ns j, of nc]
  show ?thesis
  proof (cases "seg_end old - seg_start old < ne - ns")
    case True
    then have res: "resolve ns ne nc (seg_start old) (seg_end old) (seg_cn old) = ReduceNew"
      using mixed by (simp add: resolve_mixed)
    define L where "L = (if ns < seg_start old then [(ns, seg_start old, nc)] else [])"
    have first: "(if ns < seg_start old
        then merge_overlapping_cnvs (unzip3 (pre @ old # post)) ns (seg_start old) nc
        else Some (Inr (unzip3 (pre @ old # post)))) = Some (Inr (unzip3 (pre @ L @ old # post)))"
    proof (cases "ns < seg_start old")
      case True
      have a: "\<forall>p \<in> set pre. seg_end p \<le> ns \<and> seg_start p < seg_start old"
        using pre vpre True by fastforce
      have b: "\<forall>q \<in> set (old # post). ns < seg_end q \<and> seg_start old \<le> seg_start q"
        using rest_ns old_post vold by fastforce
      have "merge_overlapping_cnvs (unzip3 (pre @ (old # post))) ns (seg_start old) nc =
          Some (Inr (unzip3 (pre @ (ns, seg_start old, nc) # (old # post))))"
        using a b by (rule merge_no_overlap)
      with True show ?thesis by (simp add: L_def)
    next
      case False
      then show ?thesis by (simp add: L_def)
    qed
    have eq: "merge_overlapping_cnvs (unzip3 (pre @ old # post)) ns ne nc =
        (if seg_end old < ne
         then merge_overlapping_cnvs (unzip3 (pre @ L @ old # post)) (seg_end old) ne nc
         else Some (Inr (unzip3 (pre @ L @ old # post))))"
      using step ne_cn res by (simp add: first)
    have second: "merge_overlapping_cnvs (unzip3 ((pre @ L @ [old]) @ post)) (seg_end old) ne nc =
        Some (Inr (unzip3 ((pre @ L @ [old]) @ (seg_end old, ne, nc) # post)))"
      if e: "seg_end old < ne"
    proof (rule merge_no_overlap)
      show "\<forall>p \<in> set (pre @ L @ [old]). seg_end p \<le> seg_end old \<and> seg_start p < ne"
        using pre pre_ne old vold by (fastforce simp: L_def)
      show "\<forall>q \<in> set post. seg_end old < seg_end q \<and> ne \<le> seg_start q"
        using post old_post vpost by fastforce
    qed
    show ?thesis
      using True eq second by (simp add: L_def)
  next
    case False
    then have res: "resolve ns ne nc (seg_start old) (seg_end old) (seg_cn old) = ReduceOld"
      using mixed by (simp add: resolve_mixed)
    define L where "L = (if seg_start old < ns then [(seg_start old, ns, seg_cn old)] else [])"
    define R where "R = (if ne < seg_end old then [(ne, seg_end old, seg_cn old)] else [])"
    have eq: "merge_overlapping_cnvs (unzip3 (pre @ old # post)) ns ne nc =
        merge_overlapping_cnvs (unzip3 ((pre @ L) @ (R @ post))) ns ne nc"
      using step ne_cn res by (simp add: L_def R_def)
    have "merge_overlapping_cnvs (unzip3 ((pre @ L) @ (R @ post))) ns ne nc =
        Some (Inr (unzip3 ((pre @ L) @ (ns, ne, nc) # (R @ post))))"
    proof (rule merge_no_overlap)
      show "\<forall>p \<in> set (pre @ L). seg_end p \<le> ns \<and> seg_start p < ne"
        using pre pre_ne old by (auto simp: L_def)
      show "\<forall>q \<in> set (R @ post). ns < seg_end q \<and> ne \<le> seg_start q"
        using post post_ns old by (auto simp: R_def)
    qed
    with False eq show ?thesis by (simp add: L_def R_def)
  qed
qed

theorem mixed_family_split_witness:
  "merge_overlapping_cnvs ([100], [300], [3]) 150 200 1 =
     Some (Inr ([100, 150, 200], [150, 200, 300], [3, 1, 3]))
   \<and> map_option (map_sum id (\<lambda>p. (starts p, ends p, cn_states p)))
         (add_all SampleCNVs_init [(''1'', 100, 300, 3), (''1'', 150, 200, 1)]) =
       Some (Inr ([(''1'', [100, 150, 200])], [(''1'', [150, 200, 300])], [(''1'', [3, 1, 3])]))"
proof -
  have ch: "chain ([] @ (100, 300, 3) # [])" by (simp add: chain_Cons)
  have "merge_overlapping_cnvs (unzip3 ([] @ (100, 300, 3) # [])) 150 200 1 =
     Some (Inr (unzip3 [(100, 150, 3), (150, 200, 1), (200, 300, 3)]))"
    using mixed_family_split [OF ch, of 150 200 1] by simp
  then have a: "merge_overlapping_cnvs ([100], [300], [3]) 150 200 1 =
     Some (Inr ([100, 150, 200], [150, 200, 300], [3, 1, 3]))"
    by (simp add: unzip3_def)
  have b: "map_option (map_sum id (\<lambda>p. (starts p, ends p, cn_states p)))
         (add_all SampleCNVs_init [(''1'', 100, 300, 3), (''1'', 150, 200, 1)]) =
       Some (Inr ([(''1'', [100, 150, 200])], [(''1'', [150, 200, 300])], [(''1'', [3, 1, 3])]))"
    by code_simp
  from a b show ?thesis by simp
qed

text \<open>
  Claim C4 as stated fails when one of the two values is 2: inserting \<open>[150,200)\<close> with
  \<open>cn = 2\<close> into \<open>[100,300)\<close> with \<open>cn = 3\<close> satisfies "one \<open>\<le> 2\<close>, the other \<open>\<ge> 2\<close>,
  unequal", and the result keeps only \<open>[100,300)\<close> with \<open>cn = 3\<close>.
\<close>

theorem copy_neutral_not_kept_counterexample:
  "map_option (map_sum id (\<lambda>p. (starts p, ends p, cn_states p)))
     (add_all SampleCNVs_init [(''1'', 100, 300, 3), (''1'', 150, 200, 2)]) =
   Some (Inr ([(''1'', [100])], [(''1'', [300])], [(''1'', [3])]))"
  by code_simp

section \<open>Arm and chromosome classification\<close>

subsection \<open>The two families on the outcomes of the comparisons\<close>

lemma families_boolean:
  assumes "aC \<longrightarrow> gC" "ap \<longrightarrow> gp" "aq \<longrightarrow> gq" "hC \<longrightarrow> dC" "hp \<longrightarrow> dp" "hq \<longrightarrow> dq"
    and "\<not> (gC \<and> dC)" "\<not> (gp \<and> dp)" "\<not> (gq \<and> dq)"
  shows "loss_part (family_labels n HOMDEL HETLOSS hC hp hq dC dp dq
                      (family_labels n AMP GAIN aC ap aq gC gp gq [])) =
         loss_part (family_labels n HOMDEL HETLOSS hC hp hq dC dp dq
                      (family_labels n AMP GAIN False False False False False False []))
       \<and> gain_part (family_labels n HOMDEL HETLOSS hC hp hq dC dp dq
                      (family_labels n AMP GAIN aC ap aq gC gp gq [])) =
         gain_part (family_labels n HOMDEL HETLOSS False False False False False False
                      (family_labels n AMP GAIN aC ap aq gC gp gq []))"
proof -
  have C: "(\<not> aC \<and> \<not> gC \<and> \<not> hC \<and> \<not> dC) \<or> (\<not> aC \<and> gC \<and> \<not> hC \<and> \<not> dC)
      \<or> (aC \<and> gC \<and> \<not> hC \<and> \<not> dC) \<or> (\<not> aC \<and> \<not> gC \<and> \<not> hC \<and> dC)
      \<or> (\<not> aC \<and> \<not> gC \<and> hC \<and> dC)"
    using assms(1,4,7) by blast
  have P: "(\<not> ap \<and> \<not> gp \<and> \<not> hp \<and> \<not> dp) \<or> (\<not> ap \<and> gp \<and> \<not> hp \<and> \<not> dp)
      \<or> (ap \<and> gp \<and> \<not> hp \<and> \<not> dp) \<or> (\<not> ap \<and> \<not> gp \<and> \<not> hp \<and> dp)
      \<or> (\<not> ap \<and> \<not> gp \<and> hp \<and> dp)"
    using assms(2,5,8) by blast
  have Q: "(\<not> aq \<and> \<not> gq \<and> \<not> hq \<and> \<not> dq) \<or> (\<not> aq \<and> gq \<and> \<not> hq \<and> \<not> dq)
      \<or> (aq \<and> gq \<and> \<not> hq \<and> \<not> dq) \<or> (\<not> aq \<and> \<not> gq \<and> \<not> hq \<and> dq)
      \<or> (\<not> aq \<and> \<not> gq \<and> hq \<and> dq)"
    using assms(3,6,9) by blast
  show ?thesis
    using C P Q
    by (elim disjE conjE; simp add: family_labels_def loss_part_def gain_part_def)
qed

lemma frac_gt_above: "len \<noteq> 0 \<Longrightarrow> frac_gt a len thr = Inr (above thr a len)"
  by (simp add: frac_gt_def above_def)

lemma classify_family_bool:
  assumes "frac_gt (sum_Chrom hi) (p_length c + q_length c) thr = Inr hC"
    and "frac_gt (sum_p hi) (p_length c) thr = Inr hp"
    and "frac_gt (sum_q hi) (q_length c) thr = Inr hq"
    and "frac_gt (sum_Chrom lo) (p_length c + q_length c) thr = Inr lC"
    and "frac_gt (sum_p lo) (p_length c) thr = Inr lp"
    and "frac_gt (sum_q lo) (q_length c) thr = Inr lq"
  shows "classify_family n c thr hi lo hi_label lo_label events =
     Inr (family_labels n hi_label lo_label hC hp hq lC lp lq events)"
  unfolding classify_family_def family_labels_def assms
  by (cases hC; cases hp; cases hq; cases lC; cases lp; cases lq;
      simp add: bind_err_def Let_def)

lemma above_zero: "0 \<le> thr \<Longrightarrow> \<not> above thr 0 len"
  by (simp add: above_def)

lemma above_mono:
  assumes "0 < len" "a \<le> g" "above thr a len"
  shows "above thr g len"
proof -
  have "(of_int a :: rat) / of_int len \<le> of_int g / of_int len"
    using assms(1,2) by (simp add: divide_right_mono)
  with assms(3) show ?thesis by (simp add: above_def)
qed

lemma above_exclusive:
  assumes "0 < len" "g + d \<le> len" "1 / 2 \<le> thr"
  shows "\<not> (above thr g len \<and> above thr d len)"
proof
  assume a: "above thr g len \<and> above thr d len"
  have L: "(0 :: rat) < of_int len" using assms(1) by simp
  from a have "thr * of_int len < of_int g" "thr * of_int len < of_int d"
    using L by (simp_all add: above_def pos_less_divide_eq)
  then have "2 * (thr * of_int len) < (of_int (g + d) :: rat)" by simp
  also have "\<dots> \<le> of_int len" using assms(2) by (simp only: of_int_le_iff)
  finally have "2 * (thr * of_int len) < (of_int len :: rat)" .
  moreover have "(1 / 2) * (of_int len :: rat) \<le> thr * of_int len"
    using assms(3) L by (intro mult_right_mono) simp_all
  ultimately show False by simp
qed

lemma classify_events_labels:
  assumes "p_length c \<noteq> 0" "q_length c \<noteq> 0" "p_length c + q_length c \<noteq> 0"
  shows "classify_events n c thr t =
     Inr (family_labels n HOMDEL HETLOSS
            (above thr (sum_Chrom (homdel_sum t)) (p_length c + q_length c))
            (above thr (sum_p (homdel_sum t)) (p_length c))
            (above thr (sum_q (homdel_sum t)) (q_length c))
            (above thr (sum_Chrom (del_sum t)) (p_length c + q_length c))
            (above thr (sum_p (del_sum t)) (p_length c))
            (above thr (sum_q (del_sum t)) (q_length c))
            (family_labels n AMP GAIN
               (above thr (sum_Chrom (amp_sum t)) (p_length c + q_length c))
               (above thr (sum_p (amp_sum t)) (p_length c))
               (above thr (sum_q (amp_sum t)) (q_length c))
               (above thr (sum_Chrom (gain_sum t)) (p_length c + q_length c))
               (above thr (sum_p (gain_sum t)) (p_length c))
               (above thr (sum_q (gain_sum t)) (q_length c)) []))"
proof -
  note fam = classify_family_bool [OF frac_gt_above [OF assms(3)] frac_gt_above [OF assms(1)]
      frac_gt_above [OF assms(2)] frac_gt_above [OF assms(3)] frac_gt_above [OF assms(1)]
      frac_gt_above [OF assms(2)]]
  show ?thesis
    unfolding classify_events_def by (simp only: fam bind_err_def sum.case)
qed

lemma tally_ok_mono:
  "tally_ok t P Q \<Longrightarrow> P \<le> P' \<Longrightarrow> Q \<le> Q' \<Longrightarrow> tally_ok t P' Q'"
  by (simp add: tally_ok_def)

lemma tally_ok_p:
  "tally_ok t P Q \<Longrightarrow> 0 \<le> n \<Longrightarrow> tally_ok (tally P_arm cn (Some n) t) (P + n) Q"
  by (simp add: tally_ok_def tally_def bump_def Let_def)

lemma tally_ok_q:
  "tally_ok t P Q \<Longrightarrow> 0 \<le> n \<Longrightarrow> tally_ok (tally Q_arm cn (Some n) t) P (Q + n)"
  by (simp add: tally_ok_def tally_def bump_def Let_def)

lemma tally_None: "tally a cn None t = t"
  by (simp add: tally_def)

lemma tally_ok_zero: "tally_ok zero_sums 0 0"
  by (simp add: tally_ok_def zero_sums_def zero_arm_sums_def)

subsection \<open>The totals of a valid partition\<close>

lemma arm_okE:
  assumes "arm_ok c"
  obtains ps pe qs qe where "p_start c = Some ps" "p_end c = Some pe"
    "q_start c = Some qs" "q_end c = Some qe" "ps \<le> pe" "qs \<le> qe"
    "pe - ps \<le> p_length c" "qe - qs \<le> q_length c" "0 < p_length c" "0 < q_length c"
  using assms by (auto simp: arm_ok_def split: option.splits)

lemma arm_overlaps_set:
  assumes "p_start c = Some ps" "p_end c = Some pe" "q_start c = Some qs" "q_end c = Some qe"
  shows "arm_overlaps c s e =
     Inr (if e < ps \<or> s > qe then (None, None)
          else (if s < pe then Some ((if e < pe then e else pe) - (if s > ps then s else ps))
                else None,
                if e > qs then Some ((if e < qe then e else qe) - (if s > qs then s else qs))
                else None))"
  by (simp add: arm_overlaps_def assms)

lemma olap_values:
  assumes "p_start c = Some ps" "p_end c = Some pe" "q_start c = Some qs" "q_end c = Some qe"
  shows "p_olap c (s, e, cn) =
      (if e < ps \<or> s > qe then 0
       else if s < pe then (if e < pe then e else pe) - (if s > ps then s else ps) else 0)"
    and "q_olap c (s, e, cn) =
      (if e < ps \<or> s > qe then 0
       else if e > qs then (if e < qe then e else qe) - (if s > qs then s else qs) else 0)"
  by (simp_all add: p_olap_def q_olap_def arm_overlaps_set [OF assms])

lemma olap_nonneg:
  assumes "arm_ok c" "seg_start x < seg_end x"
  shows "0 \<le> p_olap c x" and "0 \<le> q_olap c x"
proof -
  obtain s e cn where x: "x = (s, e, cn)" by (cases x)
  from assms(1) obtain ps pe qs qe where a: "p_start c = Some ps" "p_end c = Some pe"
    "q_start c = Some qs" "q_end c = Some qe" and le: "ps \<le> pe" "qs \<le> qe"
    by (rule arm_okE)
  from assms(2) have "s < e" by (simp add: x)
  with le show "0 \<le> p_olap c x" and "0 \<le> q_olap c x"
    by (simp_all add: x olap_values [OF a])
qed

lemma arm_overlaps_ex:
  assumes "arm_ok c"
  shows "\<exists>po qo. arm_overlaps c s e = Inr (po, qo)"
proof -
  from assms obtain ps pe qs qe where a: "p_start c = Some ps" "p_end c = Some pe"
    "q_start c = Some qs" "q_end c = Some qe"
    by (rule arm_okE)
  show ?thesis by (simp add: arm_overlaps_def a)
qed

lemma olap_of_overlaps:
  assumes "arm_overlaps c s e = Inr (po, qo)"
  shows "p_olap c (s, e, cn) = (case po of None \<Rightarrow> 0 | Some n \<Rightarrow> n)"
    and "q_olap c (s, e, cn) = (case qo of None \<Rightarrow> 0 | Some n \<Rightarrow> n)"
  by (simp_all add: p_olap_def q_olap_def assms split: option.splits)

lemma tally_step_ok:
  assumes ok: "arm_ok c" and lt: "s < e" and t: "tally_ok t P Q"
    and ov: "arm_overlaps c s e = Inr (po, qo)"
  shows "tally_ok (tally Q_arm cn qo (tally P_arm cn po t))
           (P + p_olap c (s, e, cn)) (Q + q_olap c (s, e, cn))"
proof -
  have pn: "0 \<le> p_olap c (s, e, cn)" and qn: "0 \<le> q_olap c (s, e, cn)"
    using olap_nonneg [OF ok, of "(s, e, cn)"] lt by simp_all
  note pv = olap_of_overlaps(1) [OF ov, of cn] and qv = olap_of_overlaps(2) [OF ov, of cn]
  have t1: "tally_ok (tally P_arm cn po t) (P + p_olap c (s, e, cn)) Q"
  proof (cases po)
    case None
    then have "p_olap c (s, e, cn) = 0" using pv by simp
    with t None show ?thesis by (simp add: tally_None)
  next
    case (Some n)
    then have n: "p_olap c (s, e, cn) = n" using pv by simp
    with pn have "0 \<le> n" by simp
    from tally_ok_p [OF t this, of cn] show ?thesis by (simp only: Some n)
  qed
  show ?thesis
  proof (cases qo)
    case None
    then have "q_olap c (s, e, cn) = 0" using qv by simp
    with t1 None show ?thesis by (simp add: tally_None)
  next
    case (Some n)
    then have n: "q_olap c (s, e, cn) = n" using qv by simp
    with qn have "0 \<le> n" by simp
    from tally_ok_q [OF t1 this, of cn] show ?thesis by (simp only: Some n)
  qed
qed

lemma overlap_loop_ok:
  assumes "arm_ok c"
  shows "chain xs \<Longrightarrow> tally_ok t P Q \<Longrightarrow>
     \<exists>t'. overlap_loop c xs t = Inr t'
        \<and> tally_ok t' (P + (\<Sum>x \<leftarrow> xs. p_olap c x)) (Q + (\<Sum>x \<leftarrow> xs. q_olap c x))"
proof (induction xs arbitrary: t P Q)
  case Nil
  then show ?case by simp
next
  case (Cons x xs)
  obtain s e cn where x: "x = (s, e, cn)" by (cases x)
  from Cons.prems(1) have lt: "s < e" and rest: "chain xs"
    by (simp_all add: chain_Cons x)
  from arm_overlaps_ex [OF assms, of s e] obtain po qo
    where ov: "arm_overlaps c s e = Inr (po, qo)" by blast
  have sums: "P + (\<Sum>x \<leftarrow> (s, e, cn) # xs. p_olap c x) = (P + p_olap c (s, e, cn)) + (\<Sum>x \<leftarrow> xs. p_olap c x)"
    "Q + (\<Sum>x \<leftarrow> (s, e, cn) # xs. q_olap c x) = (Q + q_olap c (s, e, cn)) + (\<Sum>x \<leftarrow> xs. q_olap c x)"
    by simp_all
  show ?case
  proof (cases "cn = 2")
    case True
    have pn: "0 \<le> p_olap c (s, e, cn)" and qn: "0 \<le> q_olap c (s, e, cn)"
      using olap_nonneg [OF assms, of "(s, e, cn)"] lt by simp_all
    have "tally_ok t (P + p_olap c (s, e, cn)) (Q + q_olap c (s, e, cn))"
      using Cons.prems(2) by (rule tally_ok_mono) (use pn qn in simp_all)
    from Cons.IH [OF rest this] obtain t' where
      "overlap_loop c xs t = Inr t'"
      "tally_ok t' ((P + p_olap c (s, e, cn)) + (\<Sum>x \<leftarrow> xs. p_olap c x))
         ((Q + q_olap c (s, e, cn)) + (\<Sum>x \<leftarrow> xs. q_olap c x))" by blast
    then show ?thesis unfolding x sums using True by auto
  next
    case False
    note t2 = tally_step_ok [OF assms lt Cons.prems(2) ov, of cn]
    from Cons.IH [OF rest t2] obtain t' where
      "overlap_loop c xs (tally Q_arm cn qo (tally P_arm cn po t)) = Inr t'"
      "tally_ok t' ((P + p_olap c (s, e, cn)) + (\<Sum>x \<leftarrow> xs. p_olap c x))
         ((Q + q_olap c (s, e, cn)) + (\<Sum>x \<leftarrow> xs. q_olap c x))" by blast
    then show ?thesis unfolding x sums using False by (auto simp: ov)
  qed
qed

lemma p_olap_sum_from:
  assumes a: "p_start c = Some ps" "p_end c = Some pe" "q_start c = Some qs" "q_end c = Some qe"
    and le: "ps \<le> pe"
  shows "chain xs \<Longrightarrow> \<forall>x \<in> set xs. lo \<le> seg_start x \<Longrightarrow>
     (\<Sum>x \<leftarrow> xs. p_olap c x) \<le> max 0 (pe - max lo ps)"
proof (induction xs arbitrary: lo)
  case Nil
  show ?case by simp
next
  case (Cons x xs)
  obtain s e cn where x: "x = (s, e, cn)" by (cases x)
  from Cons.prems(1) have lt: "s < e" and later: "\<forall>y \<in> set xs. e \<le> seg_start y"
    and rest: "chain xs"
    by (simp_all add: chain_Cons x)
  from Cons.prems(2) have lo: "lo \<le> s" by (simp add: x)
  have one: "p_olap c (s, e, cn) \<le> max 0 (min e pe - max s ps)"
    by (simp add: olap_values(1) [OF a] min_def max_def)
  have more: "(\<Sum>x \<leftarrow> xs. p_olap c x) \<le> max 0 (pe - max e ps)"
    using rest later by (rule Cons.IH)
  have "max 0 (min e pe - max s ps) + max 0 (pe - max e ps) \<le> max 0 (pe - max lo ps)"
    using lt lo le by (simp add: min_def max_def)
  with one more show ?case by (simp add: x)
qed

lemma q_olap_sum_from:
  assumes a: "p_start c = Some ps" "p_end c = Some pe" "q_start c = Some qs" "q_end c = Some qe"
    and le: "qs \<le> qe"
  shows "chain xs \<Longrightarrow> \<forall>x \<in> set xs. lo \<le> seg_start x \<Longrightarrow>
     (\<Sum>x \<leftarrow> xs. q_olap c x) \<le> max 0 (qe - max lo qs)"
proof (induction xs arbitrary: lo)
  case Nil
  show ?case by simp
next
  case (Cons x xs)
  obtain s e cn where x: "x = (s, e, cn)" by (cases x)
  from Cons.prems(1) have lt: "s < e" and later: "\<forall>y \<in> set xs. e \<le> seg_start y"
    and rest: "chain xs"
    by (simp_all add: chain_Cons x)
  from Cons.prems(2) have lo: "lo \<le> s" by (simp add: x)
  have one: "q_olap c (s, e, cn) \<le> max 0 (min e qe - max s qs)"
    by (simp add: olap_values(2) [OF a] min_def max_def)
  have more: "(\<Sum>x \<leftarrow> xs. q_olap c x) \<le> max 0 (qe - max e qs)"
    using rest later by (rule Cons.IH)
  have "max 0 (min e qe - max s qs) + max 0 (qe - max e qs) \<le> max 0 (qe - max lo qs)"
    using lt lo le by (simp add: min_def max_def)
  with one more show ?case by (simp add: x)
qed

lemma chain_first_lowest:
  "chain (x # xs) \<Longrightarrow> \<forall>y \<in> set (x # xs). seg_start x \<le> seg_start y"
  by (fastforce simp: chain_Cons)

lemma olap_sums_bounded:
  assumes "arm_ok c" and "chain xs"
  shows "(\<Sum>x \<leftarrow> xs. p_olap c x) \<le> p_length c" and "(\<Sum>x \<leftarrow> xs. q_olap c x) \<le> q_length c"
proof -
  from assms(1) obtain ps pe qs qe where a: "p_start c = Some ps" "p_end c = Some pe"
    "q_start c = Some qs" "q_end c = Some qe" and le: "ps \<le> pe" "qs \<le> qe"
    and len: "pe - ps \<le> p_length c" "qe - qs \<le> q_length c"
    and pos: "0 < p_length c" "0 < q_length c"
    by (rule arm_okE)
  have "(\<Sum>x \<leftarrow> xs. p_olap c x) \<le> p_length c \<and> (\<Sum>x \<leftarrow> xs. q_olap c x) \<le> q_length c"
  proof (cases xs)
    case Nil
    with pos show ?thesis by simp
  next
    case (Cons x ys)
    from assms(2) have first: "\<forall>y \<in> set xs. seg_start x \<le> seg_start y"
      unfolding Cons by (rule chain_first_lowest)
    from p_olap_sum_from [OF a le(1) assms(2) first]
    have "(\<Sum>x \<leftarrow> xs. p_olap c x) \<le> p_length c" using len(1) pos(1) by (simp add: max_def split: if_splits)
    moreover from q_olap_sum_from [OF a le(2) assms(2) first]
    have "(\<Sum>x \<leftarrow> xs. q_olap c x) \<le> q_length c" using len(2) pos(2) by (simp add: max_def split: if_splits)
    ultimately show ?thesis by simp
  qed
  then show "(\<Sum>x \<leftarrow> xs. p_olap c x) \<le> p_length c" and "(\<Sum>x \<leftarrow> xs. q_olap c x) \<le> q_length c"
    by simp_all
qed

lemma totals_bounded:
  assumes "arm_ok c" and "chain xs"
  shows "\<exists>t. overlap_loop c xs zero_sums = Inr t \<and> tally_ok t (p_length c) (q_length c)"
proof -
  from overlap_loop_ok [OF assms tally_ok_zero] obtain t
    where t: "overlap_loop c xs zero_sums = Inr t"
      "tally_ok t (0 + (\<Sum>x \<leftarrow> xs. p_olap c x)) (0 + (\<Sum>x \<leftarrow> xs. q_olap c x))" by blast
  have "tally_ok t (p_length c) (q_length c)"
    using t(2) by (rule tally_ok_mono) (use olap_sums_bounded [OF assms] in simp_all)
  with t(1) show ?thesis by blast
qed

subsection \<open>Independence of the families\<close>

lemma families_independent_totals:
  assumes ok: "tally_ok t (p_length c) (q_length c)"
    and pos: "0 < p_length c" "0 < q_length c" and thr: "1 / 2 \<le> thr"
  shows "\<exists>ev ev_loss ev_gain.
      classify_events n c thr t = Inr ev
      \<and> classify_events n c thr (without_gain t) = Inr ev_loss
      \<and> classify_events n c thr (without_loss t) = Inr ev_gain
      \<and> loss_part ev = loss_part ev_loss \<and> gain_part ev = gain_part ev_gain"
proof -
  from pos have nz: "p_length c \<noteq> 0" "q_length c \<noteq> 0" "p_length c + q_length c \<noteq> 0"
    and posC: "0 < p_length c + q_length c" by simp_all
  from thr have thr0: "0 \<le> thr" by simp
  note zero = above_zero [OF thr0]
  from ok have le: "sum_Chrom (amp_sum t) \<le> sum_Chrom (gain_sum t)"
    "sum_p (amp_sum t) \<le> sum_p (gain_sum t)" "sum_q (amp_sum t) \<le> sum_q (gain_sum t)"
    "sum_Chrom (homdel_sum t) \<le> sum_Chrom (del_sum t)"
    "sum_p (homdel_sum t) \<le> sum_p (del_sum t)" "sum_q (homdel_sum t) \<le> sum_q (del_sum t)"
    and both: "sum_Chrom (gain_sum t) + sum_Chrom (del_sum t) \<le> p_length c + q_length c"
    "sum_p (gain_sum t) + sum_p (del_sum t) \<le> p_length c"
    "sum_q (gain_sum t) + sum_q (del_sum t) \<le> q_length c"
    by (simp_all add: tally_ok_def)
  have aC: "above thr (sum_Chrom (amp_sum t)) (p_length c + q_length c) \<longrightarrow>
         above thr (sum_Chrom (gain_sum t)) (p_length c + q_length c)"
    using above_mono [OF posC le(1)] by blast
  have ap: "above thr (sum_p (amp_sum t)) (p_length c) \<longrightarrow> above thr (sum_p (gain_sum t)) (p_length c)"
    using above_mono [OF pos(1) le(2)] by blast
  have aq: "above thr (sum_q (amp_sum t)) (q_length c) \<longrightarrow> above thr (sum_q (gain_sum t)) (q_length c)"
    using above_mono [OF pos(2) le(3)] by blast
  have hC: "above thr (sum_Chrom (homdel_sum t)) (p_length c + q_length c) \<longrightarrow>
         above thr (sum_Chrom (del_sum t)) (p_length c + q_length c)"
    using above_mono [OF posC le(4)] by blast
  have hp: "above thr (sum_p (homdel_sum t)) (p_length c) \<longrightarrow> above thr (sum_p (del_sum t)) (p_length c)"
    using above_mono [OF pos(1) le(5)] by blast
  have hq: "above thr (sum_q (homdel_sum t)) (q_length c) \<longrightarrow> above thr (sum_q (del_sum t)) (q_length c)"
    using above_mono [OF pos(2) le(6)] by blast
  note xC = above_exclusive [OF posC both(1) thr]
    and xp = above_exclusive [OF pos(1) both(2) thr]
    and xq = above_exclusive [OF pos(2) both(3) thr]
  note bool = families_boolean [OF aC ap aq hC hp hq xC xp xq, of n]
  have wg: "classify_events n c thr (without_gain t) =
     Inr (family_labels n HOMDEL HETLOSS
            (above thr (sum_Chrom (homdel_sum t)) (p_length c + q_length c))
            (above thr (sum_p (homdel_sum t)) (p_length c))
            (above thr (sum_q (homdel_sum t)) (q_length c))
            (above thr (sum_Chrom (del_sum t)) (p_length c + q_length c))
            (above thr (sum_p (del_sum t)) (p_length c))
            (above thr (sum_q (del_sum t)) (q_length c))
            (family_labels n AMP GAIN False False False False False False []))"
    by (simp add: classify_events_labels [OF nz] without_gain_def zero_arm_sums_def zero)
  have wl: "classify_events n c thr (without_loss t) =
     Inr (family_labels n HOMDEL HETLOSS False False False False False False
            (family_labels n AMP GAIN
               (above thr (sum_Chrom (amp_sum t)) (p_length c + q_length c))
               (above thr (sum_p (amp_sum t)) (p_length c))
               (above thr (sum_q (amp_sum t)) (q_length c))
               (above thr (sum_Chrom (gain_sum t)) (p_length c + q_length c))
               (above thr (sum_p (gain_sum t)) (p_length c))
               (above thr (sum_q (gain_sum t)) (q_length c)) []))"
    by (simp add: classify_events_labels [OF nz] without_loss_def zero_arm_sums_def zero)
  show ?thesis
    unfolding classify_events_labels [OF nz, of n thr t] wg wl using bool by blast
qed

text \<open>
  Claim C3, amended. For a threshold of at least one half (the default 0.8 included),
  a chromosome whose stored segments form a valid partition, and an arm definition
  with positive lengths that cover its windows, classification raises nothing and the
  two families do not influence each other: the loss-family labels are those obtained
  with all gain-family sums set to zero, and the gain-family labels are those obtained
  with all loss-family sums set to zero. Both families can label different keys of
  the same chromosome.
\<close>

theorem families_independent:
  assumes ch: "chain (profile_segments self (normalize_name (is_chr_prefixed self) (chrom c)))"
    and keyed: "profile_keyed self" and ok: "arm_ok c" and thr: "1 / 2 \<le> threshold"
  shows "\<exists>totals ev ev_loss ev_gain.
      overlap_loop c (profile_segments self (normalize_name (is_chr_prefixed self) (chrom c)))
        zero_sums = Inr totals
      \<and> classify_events (normalize_name (is_chr_prefixed self) (chrom c)) c threshold totals
          = Inr ev
      \<and> classify_events (normalize_name (is_chr_prefixed self) (chrom c)) c threshold
            (without_gain totals) = Inr ev_loss
      \<and> classify_events (normalize_name (is_chr_prefixed self) (chrom c)) c threshold
            (without_loss totals) = Inr ev_gain
      \<and> loss_part ev = loss_part ev_loss
      \<and> gain_part ev = gain_part ev_gain
      \<and> overlap_chrom self c threshold =
          (if map_of (starts self) (normalize_name (is_chr_prefixed self) (chrom c)) = None
           then Inr [] else Inr ev)"
proof -
  define name where "name = normalize_name (is_chr_prefixed self) (chrom c)"
  from ok have pos: "0 < p_length c" "0 < q_length c" by (auto elim: arm_okE)
  from totals_bounded [OF ok ch] obtain t
    where t: "overlap_loop c (profile_segments self name) zero_sums = Inr t"
      and b: "tally_ok t (p_length c) (q_length c)"
    unfolding name_def by blast
  from families_independent_totals [OF b pos thr, of name] obtain ev ev_loss ev_gain
    where ev: "classify_events name c threshold t = Inr ev"
      "classify_events name c threshold (without_gain t) = Inr ev_loss"
      "classify_events name c threshold (without_loss t) = Inr ev_gain"
      "loss_part ev = loss_part ev_loss" "gain_part ev = gain_part ev_gain"
    by blast
  have oc: "overlap_chrom self c threshold =
      (if map_of (starts self) name = None then Inr [] else Inr ev)"
  proof (cases "map_of (starts self) name")
    case None
    then show ?thesis by (simp add: overlap_chrom_def name_def [symmetric])
  next
    case (Some s)
    from profile_keyed_lookup [OF keyed Some] obtain e k
      where e: "map_of (ends self) name = Some e" and k: "map_of (cn_states self) name = Some k"
      by blast
    have "profile_segments self name = zip s (zip e k)"
      by (simp add: profile_segments_def Some e k)
    with t have "overlap_loop c (zip s (zip e k)) zero_sums = Inr t" by simp
    then show ?thesis
      by (simp add: overlap_chrom_def name_def [symmetric] Some e k bind_err_def ev(1))
  qed
  from t ev oc show ?thesis unfolding name_def by blast
qed

text \<open>
  Claim C3 as stated fails for a smaller threshold: at 0.3, a gain on the p arm and a
  loss on the q arm both pass the whole-chromosome test. The one result dictionary
  then holds GAIN for the chromosome, which sends the loss family to the arms, while
  with the gain sums at zero the loss family labels the whole chromosome.
\<close>

theorem families_interfere_counterexample:
  "overlap_chrom (two_segments 3 1) arm_1 (3 / 10) = Inr [(''1Chrom'', GAIN), (''1q'', HETLOSS)]
   \<and> bind_err (overlap_loop arm_1 (profile_segments (two_segments 3 1) ''1'') zero_sums)
        (\<lambda>totals. classify_events ''1'' arm_1 (3 / 10) (without_gain totals))
      = Inr [(''1Chrom'', HETLOSS)]"
  by code_simp

theorem families_independent_witness:
  "\<exists>totals ev ev_loss ev_gain.
      overlap_loop arm_1 (profile_segments (two_segments 5 0) ''1'') zero_sums = Inr totals
      \<and> classify_events ''1'' arm_1 (4 / 5) totals = Inr ev
      \<and> classify_events ''1'' arm_1 (4 / 5) (without_gain totals) = Inr ev_loss
      \<and> classify_events ''1'' arm_1 (4 / 5) (without_loss totals) = Inr ev_gain
      \<and> loss_part ev = loss_part ev_loss
      \<and> gain_part ev = gain_part ev_gain
      \<and> overlap_chrom (two_segments 5 0) arm_1 (4 / 5) = Inr ev
      \<and> ev = [(''1p'', AMP), (''1q'', HOMDEL)]"
proof -
  have nm: "normalize_name (is_chr_prefixed (two_segments 5 0)) (chrom arm_1) = ''1''"
    by (simp add: normalize_name_def two_segments_def arm_1_def startswith_chr_def)
  have segs: "profile_segments (two_segments 5 0) ''1'' = [(0, 100, 5), (100, 200, 0)]"
    by (simp add: profile_segments_def two_segments_def)
  have h1: "chain (profile_segments (two_segments 5 0)
              (normalize_name (is_chr_prefixed (two_segments 5 0)) (chrom arm_1)))"
    by (simp add: nm segs chain_Cons)
  have h2: "profile_keyed (two_segments 5 0)"
    by (simp add: profile_keyed_def two_segments_def)
  have h3: "arm_ok arm_1" by (simp add: arm_ok_def arm_1_def)
  have h4: "1 / 2 \<le> (4 / 5 :: rat)" by simp
  have found: "map_of (starts (two_segments 5 0)) ''1'' \<noteq> None"
    by (simp add: two_segments_def)
  have res: "overlap_chrom (two_segments 5 0) arm_1 (4 / 5) = Inr [(''1p'', AMP), (''1q'', HOMDEL)]"
    by code_simp
  from families_independent [OF h1 h2 h3 h4, unfolded nm] obtain totals ev ev_loss ev_gain
    where t: "overlap_loop arm_1 (profile_segments (two_segments 5 0) ''1'') zero_sums = Inr totals"
      and e: "classify_events ''1'' arm_1 (4 / 5) totals = Inr ev"
        "classify_events ''1'' arm_1 (4 / 5) (without_gain totals) = Inr ev_loss"
        "classify_events ''1'' arm_1 (4 / 5) (without_loss totals) = Inr ev_gain"
        "loss_part ev = loss_part ev_loss" "gain_part ev = gain_part ev_gain"
      and oc: "overlap_chrom (two_segments 5 0) arm_1 (4 / 5) =
          (if map_of (starts (two_segments 5 0)) ''1'' = None then Inr [] else Inr ev)"
    by blast
  from oc found have o: "overlap_chrom (two_segments 5 0) arm_1 (4 / 5) = Inr ev" by simp
  with res have "ev = [(''1p'', AMP), (''1q'', HOMDEL)]" by simp
  with t e o show ?thesis by blast
qed

end
